theory Spec2Isabelle
  imports Main "HOL-Library.Word"
begin

section \<open>Values, events and observations\<close>

text \<open>
  A shallow embedding of the Minipass stream class of \<^verbatim>\<open>src/index.ts\<close>.  Every method
  is a function from the stream's state to an outcome and the state afterwards.
  JavaScript values that can be written, buffered or carried by an event are the
  datatype \<open>val\<close>: a Buffer, a string (a list of UTF-16 code units), a typed-array view,
  an ArrayBuffer, an Error object with its \<^verbatim>\<open>code\<close>, any other object, a boolean,
  \<^verbatim>\<open>undefined\<close> and \<^verbatim>\<open>null\<close>.
\<close>

type_synonym byte = "8 word"
type_synonym jsstring = "16 word list"
type_synonym hid = nat
type_synonym did = nat
type_synonym sd = "byte list"

datatype val =
    Undefined | Null | Bool bool
  | Buf "byte list" | Str jsstring
  | ABView "byte list" | ABuf "byte list"
  | Obj nat | Err string

fun truthy :: "val \<Rightarrow> bool" where
  "truthy Undefined = False"
| "truthy Null = False"
| "truthy (Bool b) = b"
| "truthy (Str s) = (s \<noteq> [])"
| "truthy v = True"

fun isBuffer :: "val \<Rightarrow> bool" where
  "isBuffer (Buf b) = True"
| "isBuffer v = False"

fun isString :: "val \<Rightarrow> bool" where
  "isString (Str s) = True"
| "isString v = False"

text \<open>
  \<^verbatim>\<open>(chunk as Minipass.BufferOrString).length\<close>: the source takes the length of Buffers
  and strings only (the cast states it), so the other values have no length here.
\<close>

fun vlen :: "val \<Rightarrow> int" where
  "vlen (Buf b) = int (length b)"
| "vlen (Str s) = int (length s)"
| "vlen v = 0"

datatype event =
    Ev_data | Ev_end | Ev_close | Ev_error | Ev_resume | Ev_finish | Ev_prefinish
  | Ev_readable | Ev_drain | Ev_abort
  | Sym_DESTROYED | Sym_ERROR
  | Ev_other string

definition isEndish :: "event \<Rightarrow> bool" where
  "isEndish ev = (ev = Ev_end \<or> ev = Ev_finish \<or> ev = Ev_prefinish)"

text \<open>
  Handlers are identified by a number and observed, not executed: a call of a handler
  is recorded in the trace of the stream, with the event and the first argument.  A
  listener is a handler registered with \<^verbatim>\<open>on\<close>, a one-shot wrapper registered with
  \<^verbatim>\<open>once\<close>, or the closure of a \<^verbatim>\<open>PipeProxyErrors\<close> that re-emits on its destination.
\<close>

datatype listener = Handler hid | OnceHandler hid | ProxyErrors did

fun isOnce :: "listener \<Rightarrow> bool" where
  "isOnce (OnceHandler h) = True"
| "isOnce l = False"

datatype obs =
    Call event hid val
  | Callback hid
  | DestWrite did val
  | DestEnd did
  | DestEmitError did val
  | CloseHook

datatype task =
    T_EMITDATA val | T_EMITEND2 | T_RESUME | T_cb hid | T_errorHandler listener

datatype exn =
    WriteAfterEnd | NonContiguous | EncodingAndObjectMode
  | TypeError | RangeError | Unhandled val

datatype 'a outcome = Ret 'a | Threw exn

section \<open>The stream and its collaborators\<close>

record Pipe =
  dest :: did
  opts_end :: bool
  opts_proxyErrors :: bool

record minipass =
  flowing :: bool
  paused :: bool
  pipes :: "Pipe list"
  buffer :: "val list"
  objectMode :: bool
  encoding :: "string option"
  async :: bool
  decoder :: "(string \<times> sd) option"
  eof :: bool
  emittedEnd :: bool
  emittingEnd :: bool
  closed :: bool
  emittedError :: val
  bufferLength :: int
  destroyed :: bool
  signal :: "val option"
  aborted :: bool
  dataListeners :: nat
  discarded :: bool
  writable :: bool
  readable :: bool
  hasClose :: bool
  listeners :: "event \<Rightarrow> listener list"
  deferred :: "task list"
  trace :: "obs list"

text \<open>
  What the class takes from its host: the incremental string decoder (a decoder object
  is its encoding and the partial byte sequence it retains), \<^verbatim>\<open>Buffer.from(string, encoding)\<close>, the answer of a
  pipe destination's \<^verbatim>\<open>write\<close> (which may depend on what was written to it before; False
  is the return value \<^verbatim>\<open>false\<close>), and the identities of the process's stdout and stderr.
\<close>

record env =
  sd_write :: "string \<Rightarrow> sd \<Rightarrow> byte list \<Rightarrow> jsstring \<times> sd"
  sd_end :: "string \<Rightarrow> sd \<Rightarrow> jsstring \<times> sd"
  sd_lastNeed :: "sd \<Rightarrow> bool"
  buffer_from :: "jsstring \<Rightarrow> string \<Rightarrow> byte list"
  dest_write :: "did \<Rightarrow> val list \<Rightarrow> val \<Rightarrow> bool"
  proc_stdout :: "did option"
  proc_stderr :: "did option"

definition encodingSet :: "minipass \<Rightarrow> bool" where
  "encodingSet s = (case encoding s of None \<Rightarrow> False | Some e \<Rightarrow> e \<noteq> [])"

definition defer_task :: "task \<Rightarrow> minipass \<Rightarrow> minipass" where
  "defer_task t s = s\<lparr>deferred := deferred s @ [t]\<rparr>"

definition record_obs :: "obs list \<Rightarrow> minipass \<Rightarrow> minipass" where
  "record_obs os s = s\<lparr>trace := trace s @ os\<rparr>"

fun written_to :: "did \<Rightarrow> obs list \<Rightarrow> val list" where
  "written_to d [] = []"
| "written_to d (DestWrite d' v # os) = (if d' = d then v # written_to d os else written_to d os)"
| "written_to d (x # os) = written_to d os"

subsection \<open>The event emitter underneath\<close>

text \<open>
  \<^verbatim>\<open>super.on\<close>, \<^verbatim>\<open>super.off\<close>, \<^verbatim>\<open>super.removeAllListeners\<close> and \<^verbatim>\<open>super.emit\<close> of the host's
  EventEmitter.  \<open>deliver\<close> calls every listener of the event in registration order and
  answers whether there was one.  A one-shot wrapper removes itself through the stream's
  own \<^verbatim>\<open>removeListener\<close>, that is through \<open>off\<close> below, which recounts the data listeners.
  The emitter raises an \<^verbatim>\<open>error\<close> event that has no listener as an exception; that case
  is written out in \<open>emit\<close>, the only place that emits \<^verbatim>\<open>error\<close>.  A handler is an
  observer here: \<open>fire\<close> records its call and the stream goes on as the handler found it.
  Handlers that act on the stream from inside the call are in the section on the endish
  check, where the closing sequence is embedded with them.
\<close>

definition super_on :: "event \<Rightarrow> listener \<Rightarrow> minipass \<Rightarrow> minipass" where
  "super_on ev l s = s\<lparr>listeners := (listeners s)(ev := listeners s ev @ [l])\<rparr>"

fun handlerOf :: "listener \<Rightarrow> hid option" where
  "handlerOf (Handler h) = Some h"
| "handlerOf (OnceHandler h) = Some h"
| "handlerOf (ProxyErrors d) = None"

fun remove_first :: "('a \<Rightarrow> bool) \<Rightarrow> 'a list \<Rightarrow> 'a list" where
  "remove_first P [] = []"
| "remove_first P (x # xs) = (if P x then xs else x # remove_first P xs)"

definition remove_last :: "('a \<Rightarrow> bool) \<Rightarrow> 'a list \<Rightarrow> 'a list" where
  "remove_last P xs = rev (remove_first P (rev xs))"

definition super_off :: "event \<Rightarrow> (listener \<Rightarrow> bool) \<Rightarrow> minipass \<Rightarrow> minipass" where
  "super_off ev P s = s\<lparr>listeners := (listeners s)(ev := remove_last P (listeners s ev))\<rparr>"

definition off_where :: "event \<Rightarrow> (listener \<Rightarrow> bool) \<Rightarrow> minipass \<Rightarrow> minipass" where
  "off_where ev P s =
     (let s1 = super_off ev P s in
      if ev = Ev_data then
        (let s2 = s1\<lparr>dataListeners := length (listeners s1 Ev_data)\<rparr> in
         if dataListeners s2 = 0 \<and> \<not> discarded s2 \<and> pipes s2 = []
         then s2\<lparr>flowing := False\<rparr> else s2)
      else s1)"

definition off :: "event \<Rightarrow> hid \<Rightarrow> minipass \<Rightarrow> minipass" where
  "off ev h s = off_where ev (\<lambda>l. handlerOf l = Some h) s"

definition removeAllListeners :: "event option \<Rightarrow> minipass \<Rightarrow> minipass" where
  "removeAllListeners evo s =
     (let s1 = (case evo of
                  None \<Rightarrow> s\<lparr>listeners := (\<lambda>e. [])\<rparr>
                | Some ev \<Rightarrow> s\<lparr>listeners := (listeners s)(ev := [])\<rparr>) in
      if evo = Some Ev_data \<or> evo = None then
        (let s2 = s1\<lparr>dataListeners := 0\<rparr> in
         if \<not> discarded s2 \<and> pipes s2 = [] then s2\<lparr>flowing := False\<rparr> else s2)
      else s1)"

fun call_listener :: "event \<Rightarrow> val \<Rightarrow> listener \<Rightarrow> obs" where
  "call_listener ev a (Handler h) = Call ev h a"
| "call_listener ev a (OnceHandler h) = Call ev h a"
| "call_listener ev a (ProxyErrors d) = DestEmitError d a"

fun fire :: "event \<Rightarrow> val \<Rightarrow> minipass \<Rightarrow> listener \<Rightarrow> minipass" where
  "fire ev a s (OnceHandler h) =
     record_obs [Call ev h a] (off_where ev (\<lambda>l. l = OnceHandler h) s)"
| "fire ev a s l = record_obs [call_listener ev a l] s"

definition deliver :: "event \<Rightarrow> val \<Rightarrow> minipass \<Rightarrow> bool \<times> minipass" where
  "deliver ev a s = (listeners s ev \<noteq> [], foldl (fire ev a) s (listeners s ev))"

section \<open>Emission\<close>

definition pause :: "minipass \<Rightarrow> minipass" where
  "pause s = s\<lparr>flowing := False, paused := True, discarded := False\<rparr>"

text \<open>
  \<^verbatim>\<open>Pipe.unpipe\<close> and \<^verbatim>\<open>Pipe.end\<close>.  The drain listener a pipe keeps on its destination
  lives in the destination; the error-proxying variant also removes its closure from the
  source's \<^verbatim>\<open>error\<close> listeners (the oldest pipe to a destination owns the oldest closure).
\<close>

definition Pipe_unpipe :: "Pipe \<Rightarrow> minipass \<Rightarrow> minipass" where
  "Pipe_unpipe p s =
     (if opts_proxyErrors p
      then s\<lparr>listeners := (listeners s)
              (Ev_error := remove_first (\<lambda>l. l = ProxyErrors (dest p)) (listeners s Ev_error))\<rparr>
      else s)"

definition Pipe_end :: "Pipe \<Rightarrow> minipass \<Rightarrow> minipass" where
  "Pipe_end p s =
     (let s1 = Pipe_unpipe p s in
      if opts_end p then record_obs [DestEnd (dest p)] s1 else s1)"

text \<open>
  The first block of \<^verbatim>\<open>[EMITEND2]\<close>: what the decoder still holds is written to every pipe
  and emitted to the data listeners, unless the stream is discarding.
\<close>

definition decoder_end :: "env \<Rightarrow> minipass \<Rightarrow> minipass" where
  "decoder_end E s =
     (case decoder s of
        None \<Rightarrow> s
      | Some (enc, d) \<Rightarrow>
          (let (data, d') = sd_end E enc d;
               s' = s\<lparr>decoder := Some (enc, d')\<rparr>
           in if data \<noteq> [] then
                (let s2 = foldl (\<lambda>t p. record_obs [DestWrite (dest p) (Str data)] t)
                            s' (pipes s')
                 in if \<not> discarded s2 then snd (deliver Ev_data (Str data) s2) else s2)
              else s'))"

definition EMITEND2 :: "env \<Rightarrow> minipass \<Rightarrow> bool \<times> minipass" where
  "EMITEND2 E s =
     (let s1 = decoder_end E s;
          s3 = foldl (\<lambda>t p. Pipe_end p t) s1 (pipes s1);
          (ret, s4) = deliver Ev_end Undefined s3
      in (ret, removeAllListeners (Some Ev_end) s4))"

definition EMITEND :: "env \<Rightarrow> minipass \<Rightarrow> bool \<times> minipass" where
  "EMITEND E s =
     (if emittedEnd s then (False, s)
      else (let s1 = s\<lparr>emittedEnd := True, readable := False\<rparr> in
            if async s1 then (True, defer_task T_EMITEND2 s1) else EMITEND2 E s1))"

text \<open>
  \<open>emit_endish\<close> is \<^verbatim>\<open>emit\<close> on the four events \<^verbatim>\<open>end\<close>, \<^verbatim>\<open>close\<close>, \<^verbatim>\<open>finish\<close> and
  \<^verbatim>\<open>prefinish\<close>, the ones \<^verbatim>\<open>[MAYBE_EMIT_END]\<close> emits; none of these branches calls
  \<^verbatim>\<open>[MAYBE_EMIT_END]\<close> back.  It starts with the guard of \<^verbatim>\<open>emit\<close> for destroyed streams.
\<close>

definition emit_endish :: "env \<Rightarrow> event \<Rightarrow> minipass \<Rightarrow> bool \<times> minipass" where
  "emit_endish E ev s =
     (if ev \<noteq> Ev_close \<and> destroyed s then (False, s)
      else if ev = Ev_end then EMITEND E s
      else if ev = Ev_close then
        (let s1 = s\<lparr>closed := True\<rparr> in
         if \<not> emittedEnd s1 \<and> \<not> destroyed s1 then (False, s1)
         else (let (ret, s2) = deliver Ev_close Undefined s1
               in (ret, removeAllListeners (Some Ev_close) s2)))
      else (let (ret, s1) = deliver ev Undefined s
            in (ret, removeAllListeners (Some ev) s1)))"

definition MAYBE_EMIT_END :: "env \<Rightarrow> minipass \<Rightarrow> minipass" where
  "MAYBE_EMIT_END E s =
     (if \<not> emittingEnd s \<and> \<not> emittedEnd s \<and> \<not> destroyed s \<and> buffer s = [] \<and> eof s then
        (let s1 = s\<lparr>emittingEnd := True\<rparr>;
             s2 = snd (emit_endish E Ev_end s1);
             s3 = snd (emit_endish E Ev_prefinish s2);
             s4 = snd (emit_endish E Ev_finish s3);
             s5 = (if closed s4 then snd (emit_endish E Ev_close s4) else s4)
         in s5\<lparr>emittingEnd := False\<rparr>)
      else s)"

definition pipe_write :: "env \<Rightarrow> val \<Rightarrow> minipass \<Rightarrow> Pipe \<Rightarrow> minipass" where
  "pipe_write E data s p =
     (let r = dest_write E (dest p) (written_to (dest p) (trace s)) data;
          s1 = record_obs [DestWrite (dest p) data] s
      in if \<not> r then pause s1 else s1)"

definition EMITDATA :: "env \<Rightarrow> val \<Rightarrow> minipass \<Rightarrow> bool \<times> minipass" where
  "EMITDATA E data s =
     (let s1 = foldl (pipe_write E data) s (pipes s);
          (ret, s2) = (if discarded s1 then (False, s1) else deliver Ev_data data s1)
      in (ret, MAYBE_EMIT_END E s2))"

text \<open>
  \<^verbatim>\<open>emit(ev, ...args)\<close>, with the first argument of the event.  The host's emitter throws
  the payload of an \<^verbatim>\<open>error\<close> event that no listener handles; every other branch returns.
\<close>

definition emit :: "env \<Rightarrow> event \<Rightarrow> val \<Rightarrow> minipass \<Rightarrow> bool outcome \<times> minipass" where
  "emit E ev a s =
     (if ev \<noteq> Ev_error \<and> ev \<noteq> Ev_close \<and> ev \<noteq> Sym_DESTROYED \<and> destroyed s then (Ret False, s)
      else if ev = Ev_data then
        (if \<not> objectMode s \<and> \<not> truthy a then (Ret False, s)
         else if async s then (Ret True, defer_task (T_EMITDATA a) s)
         else (let (ret, s1) = EMITDATA E a s in (Ret ret, s1)))
      else if ev = Ev_end \<or> ev = Ev_close then
        (let (ret, s1) = emit_endish E ev s in (Ret ret, s1))
      else if ev = Ev_error then
        (let s1 = s\<lparr>emittedError := a\<rparr>;
             s2 = snd (deliver Sym_ERROR a s1)
         in if signal s2 = None \<or> listeners s2 Ev_error \<noteq> [] then
              (if listeners s2 Ev_error = [] then (Threw (Unhandled a), s2)
               else (let (ret, s3) = deliver Ev_error a s2
                     in (Ret ret, MAYBE_EMIT_END E s3)))
            else (Ret False, MAYBE_EMIT_END E s2))
      else if ev = Ev_resume then
        (let (ret, s1) = deliver Ev_resume Undefined s in (Ret ret, MAYBE_EMIT_END E s1))
      else if ev = Ev_finish \<or> ev = Ev_prefinish then
        (let (ret, s1) = emit_endish E ev s in (Ret ret, s1))
      else (let (ret, s1) = deliver ev a s in (Ret ret, MAYBE_EMIT_END E s1)))"

text \<open>A call \<^verbatim>\<open>this.emit(ev, a)\<close> whose result the caller drops.\<close>

definition emit_drop :: "env \<Rightarrow> event \<Rightarrow> val \<Rightarrow> minipass \<Rightarrow> minipass" where
  "emit_drop E ev a s = snd (emit E ev a s)"

section \<open>The buffer\<close>

definition BUFFERPUSH :: "val \<Rightarrow> minipass \<Rightarrow> minipass" where
  "BUFFERPUSH chunk s =
     (let s1 = (if objectMode s then s\<lparr>bufferLength := bufferLength s + 1\<rparr>
                else s\<lparr>bufferLength := bufferLength s + vlen chunk\<rparr>)
      in s1\<lparr>buffer := buffer s1 @ [chunk]\<rparr>)"

text \<open>
  \<^verbatim>\<open>[BUFFERSHIFT]\<close>.  On an empty buffer \<^verbatim>\<open>this[BUFFER][0]\<close> is \<^verbatim>\<open>undefined\<close>: taking its
  length is a TypeError, and in object mode the count is decremented all the same.
\<close>

definition BUFFERSHIFT :: "minipass \<Rightarrow> val outcome \<times> minipass" where
  "BUFFERSHIFT s =
     (case buffer s of
        [] \<Rightarrow> (if objectMode s then (Ret Undefined, s\<lparr>bufferLength := bufferLength s - 1\<rparr>)
               else (Threw TypeError, s))
      | c # cs \<Rightarrow>
          (let s1 = (if objectMode s then s\<lparr>bufferLength := bufferLength s - 1\<rparr>
                     else s\<lparr>bufferLength := bufferLength s - vlen c\<rparr>)
           in (Ret c, s1\<lparr>buffer := cs\<rparr>)))"

text \<open>
  The fields that no emission touches.  Handlers only observe, so emitting an event
  leaves the buffer, the pipes and the lifecycle flags set by the producer as they are.
\<close>

definition frame :: "minipass \<Rightarrow> minipass \<Rightarrow> bool" where
  "frame s s' =
     (buffer s' = buffer s \<and> bufferLength s' = bufferLength s \<and> pipes s' = pipes s \<and>
      objectMode s' = objectMode s \<and> encoding s' = encoding s \<and> async s' = async s \<and>
      eof s' = eof s \<and> destroyed s' = destroyed s \<and> signal s' = signal s \<and>
      aborted s' = aborted s \<and> hasClose s' = hasClose s \<and> writable s' = writable s)"

lemma frame_refl [simp]: "frame s s"
  by (simp add: frame_def)

lemma frame_trans: "frame s t \<Longrightarrow> frame t u \<Longrightarrow> frame s u"
  by (simp add: frame_def)

lemma frame_foldl:
  assumes "\<And>t x. frame t (f t x)"
  shows "frame s (foldl f s xs)"
proof (induction xs arbitrary: s)
  case Nil
  show ?case by simp
next
  case (Cons x xs)
  have "frame s (f s x)" by (rule assms)
  moreover have "frame (f s x) (foldl f (f s x) xs)" by (rule Cons.IH)
  ultimately show ?case by (simp add: frame_trans)
qed

lemma frame_record_obs [simp]: "frame s (record_obs os s)"
  by (simp add: frame_def record_obs_def)

lemma frame_defer_task [simp]: "frame s (defer_task t s)"
  by (simp add: frame_def defer_task_def)

lemma frame_off_where [simp]: "frame s (off_where ev P s)"
  by (simp add: frame_def off_where_def super_off_def Let_def)

lemma frame_removeAllListeners [simp]: "frame s (removeAllListeners evo s)"
  by (cases evo) (simp_all add: frame_def removeAllListeners_def Let_def)

lemma frame_fire [simp]: "frame s (fire ev a s l)"
proof (cases l)
  case (OnceHandler h)
  have "frame s (off_where ev (\<lambda>l. l = OnceHandler h) s)" by simp
  then show ?thesis using OnceHandler by (simp add: frame_def record_obs_def)
qed simp_all

lemma frame_deliver [simp]: "frame s (snd (deliver ev a s))"
  by (simp add: deliver_def frame_foldl)

lemma frame_pause: "frame s (pause s)"
  by (simp add: frame_def pause_def)

lemma frame_Pipe_end [simp]: "frame s (Pipe_end p s)"
  by (simp add: frame_def Pipe_end_def Pipe_unpipe_def record_obs_def Let_def)

lemma frame_decoder_end [simp]: "frame s (decoder_end E s)"
proof (cases "decoder s")
  case None
  then show ?thesis by (simp add: decoder_end_def)
next
  case (Some ed)
  obtain enc d where ed: "ed = (enc, d)" by (cases ed)
  obtain data d' where sde: "sd_end E enc d = (data, d')" by (cases "sd_end E enc d")
  let ?s' = "s\<lparr>decoder := Some (enc, d')\<rparr>"
  let ?s2 = "foldl (\<lambda>t p. record_obs [DestWrite (dest p) (Str data)] t) ?s' (pipes ?s')"
  have f1: "frame s ?s'" by (simp add: frame_def)
  have f2: "frame ?s' ?s2" by (rule frame_foldl) simp
  have f3: "frame ?s2 (snd (deliver Ev_data (Str data) ?s2))" by simp
  show ?thesis
    using Some ed sde f1 frame_trans [OF f1 f2] frame_trans [OF frame_trans [OF f1 f2] f3]
    by (simp add: decoder_end_def Let_def)
qed

lemma frame_EMITEND2 [simp]: "frame s (snd (EMITEND2 E s))"
proof -
  let ?s1 = "decoder_end E s"
  let ?s3 = "foldl (\<lambda>t p. Pipe_end p t) ?s1 (pipes ?s1)"
  have b: "frame ?s1 ?s3" by (rule frame_foldl) simp
  have c: "frame ?s3 (removeAllListeners (Some Ev_end) (snd (deliver Ev_end Undefined ?s3)))"
    by (rule frame_trans [OF frame_deliver frame_removeAllListeners])
  have "snd (EMITEND2 E s) = removeAllListeners (Some Ev_end) (snd (deliver Ev_end Undefined ?s3))"
    by (simp add: EMITEND2_def Let_def split_beta)
  then show ?thesis
    using frame_trans [OF frame_decoder_end frame_trans [OF b c]] by simp
qed

lemma frame_EMITEND [simp]: "frame s (snd (EMITEND E s))"
proof -
  let ?s1 = "s\<lparr>emittedEnd := True, readable := False\<rparr>"
  have a: "frame s ?s1" by (simp add: frame_def)
  have b: "frame ?s1 (snd (EMITEND2 E ?s1))" by simp
  have c: "frame ?s1 (defer_task T_EMITEND2 ?s1)" by simp
  show ?thesis
    using frame_trans [OF a b] frame_trans [OF a c] by (simp add: EMITEND_def Let_def)
qed

lemma frame_emit_endish [simp]: "frame s (snd (emit_endish E ev s))"
proof -
  let ?s1 = "s\<lparr>closed := True\<rparr>"
  have a: "frame s ?s1" by (simp add: frame_def)
  have b: "frame ?s1 (removeAllListeners (Some Ev_close) (snd (deliver Ev_close Undefined ?s1)))"
    by (rule frame_trans [OF frame_deliver frame_removeAllListeners])
  have c: "frame s (removeAllListeners (Some ev) (snd (deliver ev Undefined s)))"
    by (rule frame_trans [OF frame_deliver frame_removeAllListeners])
  show ?thesis
    using a frame_trans [OF a b] c by (simp add: emit_endish_def Let_def split_beta)
qed

lemma frame_MAYBE_EMIT_END [simp]: "frame s (MAYBE_EMIT_END E s)"
proof (cases "\<not> emittingEnd s \<and> \<not> emittedEnd s \<and> \<not> destroyed s \<and> buffer s = [] \<and> eof s")
  case False
  then show ?thesis by (auto simp: MAYBE_EMIT_END_def)
next
  case True
  let ?s1 = "s\<lparr>emittingEnd := True\<rparr>"
  let ?s2 = "snd (emit_endish E Ev_end ?s1)"
  let ?s3 = "snd (emit_endish E Ev_prefinish ?s2)"
  let ?s4 = "snd (emit_endish E Ev_finish ?s3)"
  let ?s5 = "if closed ?s4 then snd (emit_endish E Ev_close ?s4) else ?s4"
  have f1: "frame s ?s1" by (simp add: frame_def)
  have f2: "frame s ?s2" by (rule frame_trans [OF f1 frame_emit_endish])
  have f3: "frame s ?s3" by (rule frame_trans [OF f2 frame_emit_endish])
  have f4: "frame s ?s4" by (rule frame_trans [OF f3 frame_emit_endish])
  have f5: "frame s ?s5"
    using f4 frame_trans [OF f4 frame_emit_endish] by (cases "closed ?s4") simp_all
  have f6: "frame ?s5 (?s5\<lparr>emittingEnd := False\<rparr>)" by (simp add: frame_def)
  have "MAYBE_EMIT_END E s = ?s5\<lparr>emittingEnd := False\<rparr>"
    using True by (simp add: MAYBE_EMIT_END_def Let_def)
  then show ?thesis using frame_trans [OF f5 f6] by simp
qed

lemma frame_pipe_write [simp]: "frame s (pipe_write E data s p)"
  by (simp add: frame_def pipe_write_def record_obs_def pause_def Let_def)

lemma frame_EMITDATA [simp]: "frame s (snd (EMITDATA E data s))"
proof -
  let ?s1 = "foldl (pipe_write E data) s (pipes s)"
  let ?s2 = "snd (if discarded ?s1 then (False, ?s1) else deliver Ev_data data ?s1)"
  have a: "frame s ?s1" by (rule frame_foldl) simp
  have b: "frame ?s1 ?s2" by simp
  have c: "frame ?s2 (MAYBE_EMIT_END E ?s2)" by simp
  have "snd (EMITDATA E data s) = MAYBE_EMIT_END E ?s2"
    by (simp add: EMITDATA_def Let_def split_beta)
  then show ?thesis using frame_trans [OF a frame_trans [OF b c]] by simp
qed

lemma frame_emit [simp]: "frame s (snd (emit E ev a s))"
proof -
  let ?s1 = "s\<lparr>emittedError := a\<rparr>"
  let ?s2 = "snd (deliver Sym_ERROR a ?s1)"
  have e1: "frame s ?s1" by (simp add: frame_def)
  have e2: "frame s ?s2" by (rule frame_trans [OF e1 frame_deliver])
  have e3: "frame s (MAYBE_EMIT_END E ?s2)" by (rule frame_trans [OF e2 frame_MAYBE_EMIT_END])
  have e4: "frame s (MAYBE_EMIT_END E (snd (deliver Ev_error a ?s2)))"
    by (rule frame_trans [OF e2 frame_trans [OF frame_deliver frame_MAYBE_EMIT_END]])
  have d: "\<And>e x. frame s (MAYBE_EMIT_END E (snd (deliver e x s)))"
    by (rule frame_trans [OF frame_deliver frame_MAYBE_EMIT_END])
  show ?thesis
    using e2 e3 e4 d by (simp add: emit_def Let_def split_beta)
qed

lemma frame_emit_drop [simp]: "frame s (emit_drop E ev a s)"
  by (simp add: emit_drop_def)

lemma buffer_emit_drop [simp]: "buffer (emit_drop E ev a s) = buffer s"
  using frame_emit_drop [of s E ev a] by (simp add: frame_def)

section \<open>Flushing and resuming\<close>

text \<open>
  \<^verbatim>\<open>[FLUSH]\<close>: the loop \<^verbatim>\<open>do {} while (this[FLUSHCHUNK](this[BUFFERSHIFT]()) && this[BUFFER].length)\<close>
  shifts before it tests, and \<^verbatim>\<open>[FLUSHCHUNK]\<close> emits the chunk and answers the flowing flag.
\<close>

function FLUSH_loop :: "env \<Rightarrow> minipass \<Rightarrow> unit outcome \<times> minipass" where
  "FLUSH_loop E s =
     (case BUFFERSHIFT s of
        (Threw e, s1) \<Rightarrow> (Threw e, s1)
      | (Ret c, s1) \<Rightarrow>
          (let s2 = emit_drop E Ev_data c s1
           in if flowing s2 \<and> buffer s2 \<noteq> [] then FLUSH_loop E s2 else (Ret (), s2)))"
  by pat_completeness auto
termination
proof (relation "measure (\<lambda>(E, s). length (buffer s))")
  show "wf (measure (\<lambda>(E, s). length (buffer s)))" by simp
next
  fix E s x1 x2 x1a s2
  assume a: "(x1, x2) = BUFFERSHIFT s" "x1 = Ret x1a" "s2 = emit_drop E Ev_data x1a x2"
    and b: "flowing s2 \<and> buffer s2 \<noteq> []"
  have "buffer s2 = buffer x2" using a by simp
  moreover have "buffer x2 \<noteq> [] \<Longrightarrow> length (buffer x2) < length (buffer s)"
    using a(1) by (auto simp: BUFFERSHIFT_def Let_def split: list.splits if_splits)
  ultimately show "((E, s2), (E, s)) \<in> measure (\<lambda>(E, s). length (buffer s))"
    using b by simp
qed

declare FLUSH_loop.simps [simp del]

definition FLUSH :: "env \<Rightarrow> bool \<Rightarrow> minipass \<Rightarrow> unit outcome \<times> minipass" where
  "FLUSH E noDrain s =
     (case FLUSH_loop E s of
        (Threw e, s1) \<Rightarrow> (Threw e, s1)
      | (Ret u, s1) \<Rightarrow>
          (if \<not> noDrain \<and> buffer s1 = [] \<and> \<not> eof s1
           then (Ret (), emit_drop E Ev_drain Undefined s1) else (Ret (), s1)))"

definition RESUME :: "env \<Rightarrow> minipass \<Rightarrow> unit outcome \<times> minipass" where
  "RESUME E s =
     (if destroyed s then (Ret (), s)
      else (let s1 = (if dataListeners s = 0 \<and> pipes s = [] then s\<lparr>discarded := True\<rparr> else s);
                s2 = s1\<lparr>paused := False, flowing := True\<rparr>;
                s3 = emit_drop E Ev_resume Undefined s2
            in if buffer s3 \<noteq> [] then FLUSH E False s3
               else if eof s3 then (Ret (), MAYBE_EMIT_END E s3)
               else (Ret (), emit_drop E Ev_drain Undefined s3)))"

section \<open>The write side\<close>

definition call_cb :: "hid option \<Rightarrow> minipass \<Rightarrow> minipass" where
  "call_cb cb s =
     (case cb of
        None \<Rightarrow> s
      | Some h \<Rightarrow> if async s then defer_task (T_cb h) s else record_obs [Callback h] s)"

text \<open>
  The conversion of typed-array views and ArrayBuffers into Buffers, for streams that are
  not in object mode; None is the error for data that is not contiguous.
\<close>

fun contiguous :: "val \<Rightarrow> val option" where
  "contiguous (Buf b) = Some (Buf b)"
| "contiguous (ABView b) = Some (Buf b)"
| "contiguous (ABuf b) = Some (Buf b)"
| "contiguous (Str x) = Some (Str x)"
| "contiguous v = None"

definition lastNeed :: "env \<Rightarrow> minipass \<Rightarrow> bool" where
  "lastNeed E s = (case decoder s of None \<Rightarrow> False | Some (enc, d) \<Rightarrow> sd_lastNeed E d)"

fun to_buffer :: "env \<Rightarrow> string \<Rightarrow> val \<Rightarrow> val" where
  "to_buffer E enc (Str x) = Buf (buffer_from E x enc)"
| "to_buffer E enc v = v"

fun decode_chunk :: "env \<Rightarrow> val \<Rightarrow> minipass \<Rightarrow> val outcome \<times> minipass" where
  "decode_chunk E (Buf b) s =
     (if encodingSet s then
        (case decoder s of
           None \<Rightarrow> (Threw TypeError, s)
         | Some (enc, d) \<Rightarrow>
             (let (x, d') = sd_write E enc d b
              in (Ret (Str x), s\<lparr>decoder := Some (enc, d')\<rparr>)))
      else (Ret (Buf b), s))"
| "decode_chunk E v s = (Ret v, s)"

text \<open>
  The common end of \<^verbatim>\<open>write\<close> in object mode and in the other modes: flush what is
  buffered if flowing, emit or buffer the chunk, emit \<^verbatim>\<open>readable\<close>, call back, and return
  the flowing flag.
\<close>

definition write_tail :: "env \<Rightarrow> val \<Rightarrow> hid option \<Rightarrow> minipass \<Rightarrow> bool outcome \<times> minipass" where
  "write_tail E chunk cb s =
     (case (if flowing s \<and> bufferLength s \<noteq> 0 then FLUSH E True s else (Ret (), s)) of
        (Threw e, s1) \<Rightarrow> (Threw e, s1)
      | (Ret u, s1) \<Rightarrow>
          (let s2 = (if flowing s1 then emit_drop E Ev_data chunk s1 else BUFFERPUSH chunk s1);
               s3 = (if bufferLength s2 \<noteq> 0 then emit_drop E Ev_readable Undefined s2 else s2);
               s4 = call_cb cb s3
           in (Ret (flowing s4), s4)))"

definition ERR_STREAM_DESTROYED :: val where
  "ERR_STREAM_DESTROYED = Err ''ERR_STREAM_DESTROYED''"

text \<open>\<^verbatim>\<open>if (!encoding) encoding = 'utf8'\<close>, for an encoding that is absent or empty.\<close>

definition enc_or_utf8 :: "string option \<Rightarrow> string" where
  "enc_or_utf8 ea = (case ea of None \<Rightarrow> ''utf8'' | Some e \<Rightarrow> if e = [] then ''utf8'' else e)"

definition write_mp :: "env \<Rightarrow> val \<Rightarrow> string option \<Rightarrow> hid option \<Rightarrow> minipass \<Rightarrow> bool outcome \<times> minipass" where
  "write_mp E chunk encoding_arg cb s =
     (if aborted s then (Ret False, s)
      else if eof s then (Threw WriteAfterEnd, s)
      else if destroyed s then
        (case emit E Ev_error ERR_STREAM_DESTROYED s of
           (Threw e, s1) \<Rightarrow> (Threw e, s1)
         | (Ret r, s1) \<Rightarrow> (Ret True, s1))
      else
        (let enc = enc_or_utf8 encoding_arg
         in if objectMode s then write_tail E chunk cb s
            else
              (case contiguous chunk of
                 None \<Rightarrow> (Threw NonContiguous, s)
               | Some c \<Rightarrow>
                   if vlen c = 0 then
                     (let s1 = (if bufferLength s \<noteq> 0
                                then emit_drop E Ev_readable Undefined s else s);
                          s2 = call_cb cb s1
                      in (Ret (flowing s2), s2))
                   else
                     (let c1 = (if isString c \<and> \<not> (Some enc = encoding s \<and> \<not> lastNeed E s)
                                then to_buffer E enc c else c)
                      in case decode_chunk E c1 s of
                           (Threw e, s1) \<Rightarrow> (Threw e, s1)
                         | (Ret c2, s1) \<Rightarrow> write_tail E c2 cb s1))))"

section \<open>The read side\<close>

text \<open>
  \<^verbatim>\<open>c.slice(n)\<close> and \<^verbatim>\<open>c.slice(0, n)\<close>, \<^verbatim>\<open>c.subarray(n)\<close> and \<^verbatim>\<open>c.subarray(0, n)\<close> split
  at \<open>n\<close>, counted from the end when \<open>n\<close> is negative, and clamp to the length.
\<close>

definition split_at :: "int \<Rightarrow> 'a list \<Rightarrow> nat" where
  "split_at n xs = (if n < 0 then nat (max (int (length xs) + n) 0) else nat n)"

text \<open>
  \<^verbatim>\<open>[READ](n, chunk)\<close> with \<^verbatim>\<open>chunk = this[BUFFER][0]\<close>, which is \<^verbatim>\<open>undefined\<close> on an empty
  buffer.  \<open>n\<close> is None for \<^verbatim>\<open>null\<close>.
\<close>

definition READ :: "env \<Rightarrow> int option \<Rightarrow> minipass \<Rightarrow> val outcome \<times> minipass" where
  "READ E n s =
     (let r =
        (if objectMode s then
           (Ret (case buffer s of [] \<Rightarrow> Undefined | c # cs \<Rightarrow> c), snd (BUFFERSHIFT s))
         else
           (case buffer s of
              [] \<Rightarrow> (Threw TypeError, s)
            | c # cs \<Rightarrow>
                if n = Some (vlen c) \<or> n = None then (Ret c, snd (BUFFERSHIFT s))
                else
                  (case c of
                     Str x \<Rightarrow>
                       (let k = split_at (the n) x
                        in (Ret (Str (take k x)),
                            s\<lparr>buffer := Str (drop k x) # cs,
                              bufferLength := bufferLength s - the n\<rparr>))
                   | Buf b \<Rightarrow>
                       (let k = split_at (the n) b
                        in (Ret (Buf (take k b)),
                            s\<lparr>buffer := Buf (drop k b) # cs,
                              bufferLength := bufferLength s - the n\<rparr>))
                   | _ \<Rightarrow> (Threw TypeError, s))))
      in case r of
           (Threw e, s1) \<Rightarrow> (Threw e, s1)
         | (Ret chunk, s1) \<Rightarrow>
             (let s2 = emit_drop E Ev_data chunk s1;
                  s3 = (if buffer s2 = [] \<and> \<not> eof s2
                        then emit_drop E Ev_drain Undefined s2 else s2)
              in (Ret chunk, s3)))"

fun strings_of :: "val list \<Rightarrow> jsstring list option" where
  "strings_of [] = Some []"
| "strings_of (Str x # vs) = map_option (Cons x) (strings_of vs)"
| "strings_of (v # vs) = None"

fun buffers_of :: "val list \<Rightarrow> byte list list option" where
  "buffers_of [] = Some []"
| "buffers_of (Buf b # vs) = map_option (Cons b) (buffers_of vs)"
| "buffers_of (v # vs) = None"

text \<open>
  \<^verbatim>\<open>Buffer.concat(list, totalLength)\<close> copies into a Buffer of the given length: it cuts
  what is beyond and fills with zeros what is missing.
\<close>

definition Buffer_concat :: "byte list list \<Rightarrow> nat \<Rightarrow> byte list" where
  "Buffer_concat bs n =
     (let xs = concat bs in take n xs @ replicate (n - length xs) 0)"

text \<open>
  The coalescing step of \<^verbatim>\<open>read\<close>.  A buffer of a stream that is not in object mode
  holds strings (with an encoding) or Buffers (without); on anything else the joins of
  the host are not followed and the model raises a TypeError.
\<close>

definition coalesce :: "minipass \<Rightarrow> unit outcome \<times> minipass" where
  "coalesce s =
     (if length (buffer s) > 1 \<and> \<not> objectMode s then
        (if encodingSet s then
           (case strings_of (buffer s) of
              None \<Rightarrow> (Threw TypeError, s)
            | Some xs \<Rightarrow> (Ret (), s\<lparr>buffer := [Str (concat xs)]\<rparr>))
         else
           (case buffers_of (buffer s) of
              None \<Rightarrow> (Threw TypeError, s)
            | Some bs \<Rightarrow>
                if bufferLength s < 0 then (Threw RangeError, s)
                else (Ret (), s\<lparr>buffer := [Buf (Buffer_concat bs (nat (bufferLength s)))]\<rparr>)))
      else (Ret (), s))"

definition read :: "env \<Rightarrow> int option \<Rightarrow> minipass \<Rightarrow> val outcome \<times> minipass" where
  "read E n s =
     (if destroyed s then (Ret Null, s)
      else
        (let s1 = s\<lparr>discarded := False\<rparr>
         in if bufferLength s1 = 0 \<or> n = Some 0 \<or>
               (case n of None \<Rightarrow> False | Some k \<Rightarrow> k \<noteq> 0 \<and> k > bufferLength s1)
            then (Ret Null, MAYBE_EMIT_END E s1)
            else
              (let n1 = (if objectMode s1 then None else n)
               in case coalesce s1 of
                    (Threw e, s2) \<Rightarrow> (Threw e, s2)
                  | (Ret u, s2) \<Rightarrow>
                      (case READ E n1 s2 of
                         (Threw e, s3) \<Rightarrow> (Threw e, s3)
                       | (Ret chunk, s3) \<Rightarrow> (Ret chunk, MAYBE_EMIT_END E s3)))))"

section \<open>Listeners, end, pipes and destruction\<close>

definition on :: "env \<Rightarrow> event \<Rightarrow> listener \<Rightarrow> minipass \<Rightarrow> unit outcome \<times> minipass" where
  "on E ev l s =
     (let s1 = super_on ev l s
      in if ev = Ev_data then
           (let s2 = s1\<lparr>discarded := False, dataListeners := dataListeners s1 + 1\<rparr>
            in if pipes s2 = [] \<and> \<not> flowing s2 then RESUME E s2 else (Ret (), s2))
         else if ev = Ev_readable \<and> bufferLength s1 \<noteq> 0 then
           (Ret (), snd (deliver Ev_readable Undefined s1))
         else if isEndish ev \<and> emittedEnd s1 then
           (Ret (), removeAllListeners (Some ev) (snd (deliver ev Undefined s1)))
         else if ev = Ev_error \<and> truthy (emittedError s1) then
           (if async s1 then (Ret (), defer_task (T_errorHandler l) s1)
            else (Ret (), fire Ev_error (emittedError s1) s1 l))
         else (Ret (), s1))"

text \<open>\<^verbatim>\<open>end(chunk, encoding, cb)\<close>; the chunk is \<open>Undefined\<close> when none is given.\<close>

definition end_stream ::
  "env \<Rightarrow> val \<Rightarrow> string option \<Rightarrow> hid option \<Rightarrow> minipass \<Rightarrow> unit outcome \<times> minipass" where
  "end_stream E chunk encoding_arg cb s =
     (case (if chunk \<noteq> Undefined then write_mp E chunk encoding_arg None s else (Ret False, s)) of
        (Threw e, s1) \<Rightarrow> (Threw e, s1)
      | (Ret r, s1) \<Rightarrow>
          (case (case cb of None \<Rightarrow> (Ret (), s1) | Some h \<Rightarrow> on E Ev_end (OnceHandler h) s1) of
             (Threw e, s2) \<Rightarrow> (Threw e, s2)
           | (Ret u, s2) \<Rightarrow>
               (let s3 = s2\<lparr>eof := True, writable := False\<rparr>
                in (Ret (), if flowing s3 \<or> \<not> paused s3 then MAYBE_EMIT_END E s3 else s3))))"

definition resume :: "env \<Rightarrow> minipass \<Rightarrow> unit outcome \<times> minipass" where
  "resume E s = RESUME E s"

record PipeOptions =
  opt_end :: "bool option"
  opt_proxyErrors :: "bool option"

definition pipe :: "env \<Rightarrow> did \<Rightarrow> PipeOptions \<Rightarrow> minipass \<Rightarrow> unit outcome \<times> minipass" where
  "pipe E d opts s =
     (if destroyed s then (Ret (), s)
      else
        (let s1 = s\<lparr>discarded := False\<rparr>;
             ended = emittedEnd s1;
             e = (if Some d = proc_stdout E \<or> Some d = proc_stderr E then False
                  else opt_end opts \<noteq> Some False);
             pe = (opt_proxyErrors opts = Some True)
         in if ended then (Ret (), if e then record_obs [DestEnd d] s1 else s1)
            else
              (case (if pe then on E Ev_error (ProxyErrors d) s1 else (Ret (), s1)) of
                 (Threw x, s2) \<Rightarrow> (Threw x, s2)
               | (Ret u, s2) \<Rightarrow>
                   (let s3 = s2\<lparr>pipes := pipes s2 @
                                  [\<lparr>dest = d, opts_end = e, opts_proxyErrors = pe\<rparr>]\<rparr>
                    in if async s3 then (Ret (), defer_task T_RESUME s3) else RESUME E s3))))"

definition unpipe :: "did \<Rightarrow> minipass \<Rightarrow> minipass" where
  "unpipe d s =
     (case find (\<lambda>p. dest p = d) (pipes s) of
        None \<Rightarrow> s
      | Some p \<Rightarrow>
          (let s1 = (if length (pipes s) = 1 then
                       (let s' = (if flowing s \<and> dataListeners s = 0
                                  then s\<lparr>flowing := False\<rparr> else s)
                        in s'\<lparr>pipes := []\<rparr>)
                     else s\<lparr>pipes := remove1 p (pipes s)\<rparr>)
           in Pipe_unpipe p s1))"

definition emit_destroyed :: "env \<Rightarrow> val \<Rightarrow> minipass \<Rightarrow> unit outcome \<times> minipass" where
  "emit_destroyed E er s =
     (if truthy er then
        (case emit E Ev_error er s of
           (Threw e, s1) \<Rightarrow> (Threw e, s1)
         | (Ret r, s1) \<Rightarrow> (Ret (), s1))
      else (Ret (), emit_drop E Sym_DESTROYED Undefined s))"

definition destroy :: "env \<Rightarrow> val \<Rightarrow> minipass \<Rightarrow> unit outcome \<times> minipass" where
  "destroy E er s =
     (if destroyed s then emit_destroyed E er s
      else
        (let s1 = s\<lparr>destroyed := True, discarded := True, buffer := [], bufferLength := 0\<rparr>;
             s2 = (if hasClose s1 \<and> \<not> closed s1 then record_obs [CloseHook] s1 else s1)
         in emit_destroyed E er s2))"

definition ABORT :: "env \<Rightarrow> minipass \<Rightarrow> unit outcome \<times> minipass" where
  "ABORT E s =
     (let s1 = s\<lparr>aborted := True\<rparr>;
          reason = (case signal s1 of None \<Rightarrow> Undefined | Some r \<Rightarrow> r);
          s2 = emit_drop E Ev_abort reason s1
      in destroy E reason s2)"

section \<open>Construction, the async setter and deferred work\<close>

text \<open>
  The options of the constructor.  A signal is given by whether it is aborted already and
  by the reason it carries when it aborts.
\<close>

record Options =
  options_async :: val
  options_signal :: "(bool \<times> val) option"
  options_encoding :: "string option"
  options_objectMode :: bool

definition fresh :: minipass where
  "fresh = \<lparr>flowing = False, paused = False, pipes = [], buffer = [], objectMode = False,
            encoding = None, async = False, decoder = None, eof = False, emittedEnd = False,
            emittingEnd = False, closed = False, emittedError = Null, bufferLength = 0,
            destroyed = False, signal = None, aborted = False, dataListeners = 0,
            discarded = False, writable = True, readable = True, hasClose = False,
            listeners = (\<lambda>e. []), deferred = [], trace = []\<rparr>"

definition new_Minipass :: "env \<Rightarrow> Options \<Rightarrow> minipass outcome" where
  "new_Minipass E opts =
     (if options_objectMode opts \<and> options_encoding opts \<noteq> None then Threw EncodingAndObjectMode
      else
        (let enc = (if options_objectMode opts then None
                    else (case options_encoding opts of
                            None \<Rightarrow> None
                          | Some e \<Rightarrow> if e \<noteq> [] \<and> e \<noteq> ''buffer'' then Some e else None));
             s1 = fresh\<lparr>objectMode := options_objectMode opts, encoding := enc,
                        async := truthy (options_async opts),
                        decoder := (case enc of None \<Rightarrow> None | Some e \<Rightarrow> Some (e, []))\<rparr>
         in case options_signal opts of
              None \<Rightarrow> Ret s1
            | Some (ab, reason) \<Rightarrow>
                (let s2 = s1\<lparr>signal := Some reason\<rparr>
                 in if ab then
                      (case ABORT E s2 of (Threw e, s3) \<Rightarrow> Threw e | (Ret u, s3) \<Rightarrow> Ret s3)
                    else Ret s2)))"

definition set_async :: "val \<Rightarrow> minipass \<Rightarrow> minipass" where
  "set_async a s = s\<lparr>async := (async s \<or> truthy a)\<rparr>"

text \<open>
  One turn of the host's microtask queue: the oldest deferred call runs.
\<close>

definition tick :: "env \<Rightarrow> minipass \<Rightarrow> unit outcome \<times> minipass" where
  "tick E s =
     (case deferred s of
        [] \<Rightarrow> (Ret (), s)
      | t # ts \<Rightarrow>
          (let s1 = s\<lparr>deferred := ts\<rparr>
           in case t of
                T_EMITDATA v \<Rightarrow> (Ret (), snd (EMITDATA E v s1))
              | T_EMITEND2 \<Rightarrow> (Ret (), snd (EMITEND2 E s1))
              | T_RESUME \<Rightarrow> RESUME E s1
              | T_cb h \<Rightarrow> (Ret (), record_obs [Callback h] s1)
              | T_errorHandler l \<Rightarrow> (Ret (), fire Ev_error (emittedError s1) s1 l)))"

section \<open>A concrete host\<close>

text \<open>
  A host for the concrete runs below: its decoder turns every byte into one code unit and
  retains nothing, its \<^verbatim>\<open>Buffer.from\<close> does the converse, every destination accepts
  every write, and stdout and stderr are the destinations 1 and 2.
\<close>

definition env0 :: env where
  "env0 = \<lparr>sd_write = (\<lambda>enc d b. (map ucast (d @ b), [])), sd_end = (\<lambda>enc d. ([], [])),
           sd_lastNeed = (\<lambda>d. d \<noteq> []), buffer_from = (\<lambda>x enc. map ucast x),
           dest_write = (\<lambda>d h v. True), proc_stdout = Some 1, proc_stderr = Some 2\<rparr>"

definition opts0 :: Options where
  "opts0 = \<lparr>options_async = Bool True, options_signal = None, options_encoding = None,
            options_objectMode = False\<rparr>"

text \<open>The definitions that a concrete run unfolds.\<close>

lemmas run_defs = on_def super_on_def fresh_def env0_def end_stream_def MAYBE_EMIT_END_def
  emit_endish_def EMITEND_def EMITEND2_def decoder_end_def deliver_def removeAllListeners_def
  defer_task_def record_obs_def tick_def isEndish_def Let_def Pipe_end_def Pipe_unpipe_def
  write_mp_def write_tail_def BUFFERPUSH_def BUFFERSHIFT_def emit_drop_def emit_def EMITDATA_def
  call_cb_def lastNeed_def encodingSet_def destroy_def emit_destroyed_def
  ERR_STREAM_DESTROYED_def pause_def read_def READ_def coalesce_def split_at_def
  RESUME_def FLUSH_def pipe_write_def off_where_def super_off_def enc_or_utf8_def

section \<open>Facts about the emitter\<close>

text \<open>
  Delivering an event records one call per listener, in registration order, and touches
  nothing but the trace and, through one-shot wrappers, the listeners of that event.
\<close>

lemmas prim_defs = record_obs_def defer_task_def pause_def super_on_def Pipe_unpipe_def
  Pipe_end_def removeAllListeners_def off_where_def super_off_def

definition quiet :: "minipass \<Rightarrow> minipass \<Rightarrow> bool" where
  "quiet s s' =
     (closed s' = closed s \<and> emittedEnd s' = emittedEnd s \<and> emittingEnd s' = emittingEnd s \<and>
      deferred s' = deferred s \<and> discarded s' = discarded s \<and>
      paused s' = paused s \<and> emittedError s' = emittedError s \<and> readable s' = readable s)"

lemma quiet_refl [simp]: "quiet s s"
  by (simp add: quiet_def)

lemma quiet_trans: "quiet s t \<Longrightarrow> quiet t u \<Longrightarrow> quiet s u"
  by (simp add: quiet_def)

lemma trace_fire [simp]: "trace (fire ev a s l) = trace s @ [call_listener ev a l]"
  by (cases l) (simp_all add: prim_defs Let_def)

lemma quiet_fire [simp]: "quiet s (fire ev a s l)"
  by (cases l) (simp_all add: prim_defs Let_def quiet_def)

lemma listeners_fire [simp]: "ev' \<noteq> ev \<Longrightarrow> listeners (fire ev a s l) ev' = listeners s ev'"
  by (cases l) (auto simp: prim_defs Let_def)

lemma flowing_fire [simp]: "ev \<noteq> Ev_data \<Longrightarrow> flowing (fire ev a s l) = flowing s"
  by (cases l) (simp_all add: prim_defs Let_def)

lemma dataListeners_fire [simp]:
  "ev \<noteq> Ev_data \<Longrightarrow> dataListeners (fire ev a s l) = dataListeners s"
  by (cases l) (simp_all add: prim_defs Let_def)

lemma fire_plain: "\<not> isOnce l \<Longrightarrow> fire ev a s l = record_obs [call_listener ev a l] s"
  by (cases l) simp_all

lemma trace_foldl_fire:
  "trace (foldl (fire ev a) s ls) = trace s @ map (call_listener ev a) ls"
  by (induction ls arbitrary: s) simp_all

lemma quiet_foldl_fire: "quiet s (foldl (fire ev a) s ls)"
proof (induction ls arbitrary: s)
  case (Cons l ls)
  show ?case using quiet_trans [OF quiet_fire Cons.IH] by simp
qed simp

lemma listeners_foldl_fire:
  "ev' \<noteq> ev \<Longrightarrow> listeners (foldl (fire ev a) s ls) ev' = listeners s ev'"
  by (induction ls arbitrary: s) simp_all

lemma flowing_foldl_fire:
  "ev \<noteq> Ev_data \<Longrightarrow> flowing (foldl (fire ev a) s ls) = flowing s"
  by (induction ls arbitrary: s) simp_all

lemma dataListeners_foldl_fire:
  "ev \<noteq> Ev_data \<Longrightarrow> dataListeners (foldl (fire ev a) s ls) = dataListeners s"
  by (induction ls arbitrary: s) simp_all

lemma foldl_fire_plain:
  "\<forall>l\<in>set ls. \<not> isOnce l \<Longrightarrow>
   foldl (fire ev a) s ls = record_obs (map (call_listener ev a) ls) s"
proof (induction ls arbitrary: s)
  case Nil
  show ?case by (simp add: record_obs_def)
next
  case (Cons l ls)
  then show ?case by (simp add: fire_plain record_obs_def)
qed

lemma fst_deliver [simp]: "fst (deliver ev a s) = (listeners s ev \<noteq> [])"
  by (simp add: deliver_def)

lemma trace_deliver [simp]:
  "trace (snd (deliver ev a s)) = trace s @ map (call_listener ev a) (listeners s ev)"
  by (simp add: deliver_def trace_foldl_fire)

lemma quiet_deliver [simp]: "quiet s (snd (deliver ev a s))"
  by (simp add: deliver_def quiet_foldl_fire)

lemma listeners_deliver [simp]:
  "ev' \<noteq> ev \<Longrightarrow> listeners (snd (deliver ev a s)) ev' = listeners s ev'"
  by (simp add: deliver_def listeners_foldl_fire)

lemma flowing_deliver [simp]: "ev \<noteq> Ev_data \<Longrightarrow> flowing (snd (deliver ev a s)) = flowing s"
  by (simp add: deliver_def flowing_foldl_fire)

lemma dataListeners_deliver [simp]:
  "ev \<noteq> Ev_data \<Longrightarrow> dataListeners (snd (deliver ev a s)) = dataListeners s"
  by (simp add: deliver_def dataListeners_foldl_fire)

lemma deliver_plain:
  "\<forall>l\<in>set (listeners s ev). \<not> isOnce l \<Longrightarrow>
   deliver ev a s = (listeners s ev \<noteq> [], record_obs (map (call_listener ev a) (listeners s ev)) s)"
  by (simp add: deliver_def foldl_fire_plain)

lemma deliver_none: "listeners s ev = [] \<Longrightarrow> deliver ev a s = (False, s)"
  by (simp add: deliver_def)

text \<open>
  What flushing, resuming and registering a listener leave alone: everything of \<open>frame\<close>
  but the buffer and its length.
\<close>

definition stable :: "minipass \<Rightarrow> minipass \<Rightarrow> bool" where
  "stable s s' =
     (pipes s' = pipes s \<and> objectMode s' = objectMode s \<and> encoding s' = encoding s \<and>
      async s' = async s \<and> eof s' = eof s \<and> destroyed s' = destroyed s \<and>
      signal s' = signal s \<and> aborted s' = aborted s \<and> hasClose s' = hasClose s \<and>
      writable s' = writable s)"

lemma stable_refl [simp]: "stable s s"
  by (simp add: stable_def)

lemma stable_trans: "stable s t \<Longrightarrow> stable t u \<Longrightarrow> stable s u"
  by (simp add: stable_def)

lemma frame_stable: "frame s s' \<Longrightarrow> stable s s'"
  by (simp add: frame_def stable_def)

lemma stable_emit_drop [simp]: "stable s (emit_drop E ev a s)"
  by (simp add: frame_stable)

lemma stable_MAYBE_EMIT_END [simp]: "stable s (MAYBE_EMIT_END E s)"
  by (simp add: frame_stable)

lemma stable_BUFFERSHIFT [simp]: "stable s (snd (BUFFERSHIFT s))"
  by (simp add: BUFFERSHIFT_def stable_def Let_def split: list.splits)

lemma stable_BUFFERPUSH [simp]: "stable s (BUFFERPUSH c s)"
  by (simp add: BUFFERPUSH_def stable_def Let_def)

lemma stable_FLUSH_loop [simp]: "stable s (snd (FLUSH_loop E s))"
proof (induction E s rule: FLUSH_loop.induct)
  case (1 E s)
  obtain r s1 where bs: "BUFFERSHIFT s = (r, s1)" by (cases "BUFFERSHIFT s")
  have st1: "stable s s1" using stable_BUFFERSHIFT [of s] bs by simp
  show ?case
  proof (cases r)
    case (Threw e)
    then show ?thesis using bs st1 by (simp add: FLUSH_loop.simps [of E s])
  next
    case (Ret c)
    let ?s2 = "emit_drop E Ev_data c s1"
    have st2: "stable s ?s2" by (rule stable_trans [OF st1 stable_emit_drop])
    show ?thesis
    proof (cases "flowing ?s2 \<and> buffer ?s2 \<noteq> []")
      case True
      have "stable ?s2 (snd (FLUSH_loop E ?s2))"
        using "1.IH" [OF bs [symmetric] Ret refl True] .
      then show ?thesis
        using True bs Ret stable_trans [OF st2] by (simp add: FLUSH_loop.simps [of E s] Let_def)
    next
      case False
      then show ?thesis using bs Ret st2 by (auto simp: FLUSH_loop.simps [of E s] Let_def)
    qed
  qed
qed

lemma stable_FLUSH [simp]: "stable s (snd (FLUSH E nd s))"
proof -
  obtain r s1 where fl: "FLUSH_loop E s = (r, s1)" by (cases "FLUSH_loop E s")
  have a: "stable s s1" using stable_FLUSH_loop [of s E] fl by simp
  have b: "stable s (emit_drop E Ev_drain Undefined s1)"
    by (rule stable_trans [OF a stable_emit_drop])
  show ?thesis using fl a b by (cases r) (simp_all add: FLUSH_def)
qed

lemma stable_RESUME [simp]: "stable s (snd (RESUME E s))"
proof (cases "destroyed s")
  case True
  then show ?thesis by (simp add: RESUME_def)
next
  case False
  define s2 where "s2 = (if dataListeners s = 0 \<and> pipes s = [] then s\<lparr>discarded := True\<rparr> else s)
                          \<lparr>paused := False, flowing := True\<rparr>"
  define s3 where "s3 = emit_drop E Ev_resume Undefined s2"
  have a: "stable s s2" by (simp add: s2_def stable_def)
  have b: "stable s s3" unfolding s3_def by (rule stable_trans [OF a stable_emit_drop])
  have c: "stable s (snd (FLUSH E False s3))" by (rule stable_trans [OF b stable_FLUSH])
  have d: "stable s (MAYBE_EMIT_END E s3)" by (rule stable_trans [OF b stable_MAYBE_EMIT_END])
  have e: "stable s (emit_drop E Ev_drain Undefined s3)" by (rule stable_trans [OF b stable_emit_drop])
  have "RESUME E s = (if buffer s3 \<noteq> [] then FLUSH E False s3
               else if eof s3 then (Ret (), MAYBE_EMIT_END E s3)
               else (Ret (), emit_drop E Ev_drain Undefined s3))"
    using False by (simp add: RESUME_def s3_def s2_def Let_def)
  then show ?thesis using c d e by simp
qed

lemma stable_fire [simp]: "stable s (fire ev a s l)"
  using frame_fire [of s ev a l] by (rule frame_stable)

lemma stable_on [simp]: "stable s (snd (on E ev l s))"
proof -
  let ?s1 = "super_on ev l s"
  have a: "stable s ?s1" by (simp add: stable_def super_on_def)
  let ?s2 = "?s1\<lparr>discarded := False, dataListeners := dataListeners ?s1 + 1\<rparr>"
  have b: "stable s ?s2" by (simp add: stable_def super_on_def)
  have c: "stable s (snd (RESUME E ?s2))" by (rule stable_trans [OF b stable_RESUME])
  have d: "stable s (snd (deliver e x ?s1))" for e x
    by (rule stable_trans [OF a frame_stable [OF frame_deliver]])
  have e: "stable s (removeAllListeners (Some ev) (snd (deliver ev Undefined ?s1)))"
    by (rule stable_trans [OF d frame_stable [OF frame_removeAllListeners]])
  have f: "stable s (defer_task (T_errorHandler l) ?s1)"
    by (rule stable_trans [OF a frame_stable [OF frame_defer_task]])
  have g: "stable s (fire Ev_error (emittedError ?s1) ?s1 l)"
    by (rule stable_trans [OF a stable_fire])
  consider (dat) "ev = Ev_data"
    | (rd) "ev \<noteq> Ev_data" "ev = Ev_readable \<and> bufferLength ?s1 \<noteq> 0"
    | (en) "ev \<noteq> Ev_data" "\<not> (ev = Ev_readable \<and> bufferLength ?s1 \<noteq> 0)"
           "isEndish ev \<and> emittedEnd ?s1"
    | (er) "ev \<noteq> Ev_data" "\<not> (ev = Ev_readable \<and> bufferLength ?s1 \<noteq> 0)"
           "\<not> (isEndish ev \<and> emittedEnd ?s1)" "ev = Ev_error \<and> truthy (emittedError ?s1)"
    | (no) "ev \<noteq> Ev_data" "\<not> (ev = Ev_readable \<and> bufferLength ?s1 \<noteq> 0)"
           "\<not> (isEndish ev \<and> emittedEnd ?s1)" "\<not> (ev = Ev_error \<and> truthy (emittedError ?s1))"
    by blast
  then show ?thesis
  proof cases
    case dat
    have "snd (on E ev l s) = (if pipes ?s2 = [] \<and> \<not> flowing ?s2 then snd (RESUME E ?s2) else ?s2)"
      using dat by (simp add: on_def Let_def)
    then show ?thesis using b c by simp
  next
    case rd
    then have "snd (on E ev l s) = snd (deliver Ev_readable Undefined ?s1)"
      by (auto simp: on_def Let_def)
    then show ?thesis using d by simp
  next
    case en
    then have "snd (on E ev l s) = removeAllListeners (Some ev) (snd (deliver ev Undefined ?s1))"
      by (auto simp: on_def Let_def)
    then show ?thesis using e by simp
  next
    case er
    then have "snd (on E ev l s) = (if async ?s1 then defer_task (T_errorHandler l) ?s1
            else fire Ev_error (emittedError ?s1) ?s1 l)"
      by (auto simp: on_def Let_def)
    then show ?thesis using f g by simp
  next
    case no
    then have "snd (on E ev l s) = ?s1" by (auto simp: on_def Let_def)
    then show ?thesis using a by simp
  qed
qed

section \<open>What an emission records\<close>

text \<open>
  The observations that the closing sequence adds to the trace, written as functions of the
  state it starts from.
\<close>

definition pipe_ends :: "Pipe list \<Rightarrow> obs list" where
  "pipe_ends ps = map (\<lambda>p. DestEnd (dest p)) (filter opts_end ps)"

definition pipe_writes :: "val \<Rightarrow> Pipe list \<Rightarrow> obs list" where
  "pipe_writes v ps = map (\<lambda>p. DestWrite (dest p) v) ps"

definition calls :: "event \<Rightarrow> val \<Rightarrow> minipass \<Rightarrow> obs list" where
  "calls ev a s = map (call_listener ev a) (listeners s ev)"

definition flush_data :: "env \<Rightarrow> minipass \<Rightarrow> jsstring" where
  "flush_data E s = (case decoder s of None \<Rightarrow> [] | Some (enc, d) \<Rightarrow> fst (sd_end E enc d))"

definition EMITEND2_obs :: "env \<Rightarrow> minipass \<Rightarrow> obs list" where
  "EMITEND2_obs E s =
     (if flush_data E s \<noteq> [] then
        pipe_writes (Str (flush_data E s)) (pipes s) @
        (if discarded s then [] else calls Ev_data (Str (flush_data E s)) s)
      else []) @
     pipe_ends (pipes s) @ calls Ev_end Undefined s"

definition endCondition :: "minipass \<Rightarrow> bool" where
  "endCondition s =
     (\<not> emittingEnd s \<and> \<not> emittedEnd s \<and> \<not> destroyed s \<and> buffer s = [] \<and> eof s)"

definition MAYBE_EMIT_END_obs :: "env \<Rightarrow> minipass \<Rightarrow> obs list" where
  "MAYBE_EMIT_END_obs E s =
     (if endCondition s then
        (if async s then [] else EMITEND2_obs E s) @
        calls Ev_prefinish Undefined s @ calls Ev_finish Undefined s @
        (if closed s then calls Ev_close Undefined s else [])
      else [])"

text \<open>The listeners of every event outside a set are the same in two states.\<close>

definition listeners_but :: "event set \<Rightarrow> minipass \<Rightarrow> minipass \<Rightarrow> bool" where
  "listeners_but X s s' = (\<forall>ev. ev \<notin> X \<longrightarrow> listeners s' ev = listeners s ev)"

lemma listeners_but_refl [simp]: "listeners_but X s s"
  by (simp add: listeners_but_def)

lemma listeners_but_trans:
  "listeners_but X s t \<Longrightarrow> listeners_but Y t u \<Longrightarrow> listeners_but (X \<union> Y) s u"
  by (simp add: listeners_but_def)

lemma listeners_but_mono: "listeners_but X s t \<Longrightarrow> X \<subseteq> Y \<Longrightarrow> listeners_but Y s t"
  by (auto simp: listeners_but_def)

lemma listeners_butD: "listeners_but X s t \<Longrightarrow> ev \<notin> X \<Longrightarrow> listeners t ev = listeners s ev"
  by (simp add: listeners_but_def)

lemma listeners_but_deliver [simp]: "listeners_but {ev} s (snd (deliver ev a s))"
  by (simp add: listeners_but_def)

lemma listeners_but_removeAll [simp]:
  "listeners_but {ev} s (removeAllListeners (Some ev) s)"
  by (simp add: listeners_but_def removeAllListeners_def Let_def)

lemma quiet_removeAll [simp]: "quiet s (removeAllListeners evo s)"
  by (cases evo) (simp_all add: quiet_def removeAllListeners_def Let_def)

lemma trace_removeAll [simp]: "trace (removeAllListeners evo s) = trace s"
  by (cases evo) (simp_all add: removeAllListeners_def Let_def)

subsection \<open>Ending the pipes\<close>

lemma trace_Pipe_end [simp]:
  "trace (Pipe_end p s) = trace s @ (if opts_end p then [DestEnd (dest p)] else [])"
  by (simp add: prim_defs Let_def)

lemma quiet_Pipe_end [simp]: "quiet s (Pipe_end p s)"
  by (simp add: prim_defs Let_def quiet_def)

lemma listeners_but_Pipe_end [simp]: "listeners_but {Ev_error} s (Pipe_end p s)"
  by (simp add: prim_defs Let_def listeners_but_def)

lemma trace_foldl_Pipe_end:
  "trace (foldl (\<lambda>t p. Pipe_end p t) s ps) = trace s @ pipe_ends ps"
  by (induction ps arbitrary: s) (simp_all add: pipe_ends_def)

lemma quiet_foldl_Pipe_end: "quiet s (foldl (\<lambda>t p. Pipe_end p t) s ps)"
proof (induction ps arbitrary: s)
  case (Cons p ps)
  show ?case using quiet_trans [OF quiet_Pipe_end Cons.IH] by simp
qed simp

lemma listeners_but_foldl_Pipe_end:
  "listeners_but {Ev_error} s (foldl (\<lambda>t p. Pipe_end p t) s ps)"
proof (induction ps arbitrary: s)
  case (Cons p ps)
  show ?case using listeners_but_trans [OF listeners_but_Pipe_end Cons.IH] by simp
qed simp

lemma foldl_record_writes:
  "foldl (\<lambda>t p. record_obs [DestWrite (dest p) v] t) s ps = record_obs (pipe_writes v ps) s"
proof (induction ps arbitrary: s)
  case Nil
  show ?case by (simp add: record_obs_def pipe_writes_def)
next
  case (Cons p ps)
  show ?case by (simp add: Cons.IH) (simp add: record_obs_def pipe_writes_def)
qed

subsection \<open>The closing sequence\<close>

lemma decoder_end_None: "decoder s = None \<Longrightarrow> decoder_end E s = s"
  by (simp add: decoder_end_def)

lemma decoder_end_Some:
  assumes "decoder s = Some (enc, d)" and "sd_end E enc d = (data, d')"
  shows "decoder_end E s =
     (if data \<noteq> [] then
        (if \<not> discarded s
         then snd (deliver Ev_data (Str data)
                (record_obs (pipe_writes (Str data) (pipes s)) (s\<lparr>decoder := Some (enc, d')\<rparr>)))
         else record_obs (pipe_writes (Str data) (pipes s)) (s\<lparr>decoder := Some (enc, d')\<rparr>))
      else s\<lparr>decoder := Some (enc, d')\<rparr>)"
proof -
  have "discarded (record_obs os (s\<lparr>decoder := x\<rparr>)) = discarded s" for os x
    by (simp add: record_obs_def)
  then show ?thesis
    using assms by (simp add: decoder_end_def Let_def foldl_record_writes)
qed

lemma trace_decoder_end:
  "trace (decoder_end E s) = trace s @
     (if flush_data E s \<noteq> [] then
        pipe_writes (Str (flush_data E s)) (pipes s) @
        (if discarded s then [] else calls Ev_data (Str (flush_data E s)) s)
      else [])"
proof (cases "decoder s")
  case None
  then show ?thesis by (simp add: decoder_end_None flush_data_def)
next
  case (Some ed)
  obtain enc d where ed: "ed = (enc, d)" by (cases ed)
  obtain data d' where sde: "sd_end E enc d = (data, d')" by (cases "sd_end E enc d")
  have fd: "flush_data E s = data" using Some ed sde by (simp add: flush_data_def)
  show ?thesis
    by (simp add: decoder_end_Some [OF Some [unfolded ed] sde] fd record_obs_def calls_def)
qed

lemma quiet_decoder_end [simp]: "quiet s (decoder_end E s)"
proof (cases "decoder s")
  case None
  then show ?thesis by (simp add: decoder_end_None)
next
  case (Some ed)
  obtain enc d where ed: "ed = (enc, d)" by (cases ed)
  obtain data d' where sde: "sd_end E enc d = (data, d')" by (cases "sd_end E enc d")
  let ?s' = "s\<lparr>decoder := Some (enc, d')\<rparr>"
  let ?s2 = "record_obs (pipe_writes (Str data) (pipes s)) ?s'"
  have a: "quiet s ?s2" by (simp add: quiet_def record_obs_def)
  have b: "quiet s (snd (deliver Ev_data (Str data) ?s2))"
    by (rule quiet_trans [OF a quiet_deliver])
  have c: "quiet s ?s'" by (simp add: quiet_def)
  show ?thesis using a b c by (simp add: decoder_end_Some [OF Some [unfolded ed] sde])
qed

lemma listeners_but_decoder_end [simp]: "listeners_but {Ev_data} s (decoder_end E s)"
proof (cases "decoder s")
  case None
  then show ?thesis by (simp add: decoder_end_None)
next
  case (Some ed)
  obtain enc d where ed: "ed = (enc, d)" by (cases ed)
  obtain data d' where sde: "sd_end E enc d = (data, d')" by (cases "sd_end E enc d")
  let ?s' = "s\<lparr>decoder := Some (enc, d')\<rparr>"
  let ?s2 = "record_obs (pipe_writes (Str data) (pipes s)) ?s'"
  have a: "listeners_but {Ev_data} s ?s2" by (simp add: listeners_but_def record_obs_def)
  have b: "listeners_but {Ev_data} s (snd (deliver Ev_data (Str data) ?s2))"
    using listeners_but_trans [OF a listeners_but_deliver [of Ev_data ?s2 "Str data"]] by simp
  have c: "listeners_but {Ev_data} s ?s'" by (simp add: listeners_but_def)
  show ?thesis using a b c by (simp add: decoder_end_Some [OF Some [unfolded ed] sde])
qed

lemma pipes_decoder_end [simp]: "pipes (decoder_end E s) = pipes s"
  using frame_decoder_end [of s E] by (simp add: frame_def)

lemma snd_EMITEND2:
  "snd (EMITEND2 E s) =
     removeAllListeners (Some Ev_end)
       (snd (deliver Ev_end Undefined
          (foldl (\<lambda>t p. Pipe_end p t) (decoder_end E s) (pipes s))))"
  by (simp add: EMITEND2_def Let_def split_beta)

lemma listeners_but_EMITEND2:
  "listeners_but {Ev_data, Ev_error, Ev_end} s (snd (EMITEND2 E s))"
proof -
  let ?s1 = "decoder_end E s"
  let ?s3 = "foldl (\<lambda>t p. Pipe_end p t) ?s1 (pipes s)"
  let ?s4 = "snd (deliver Ev_end Undefined ?s3)"
  have "listeners_but ({Ev_data} \<union> {Ev_error}) s ?s3"
    by (rule listeners_but_trans [OF listeners_but_decoder_end listeners_but_foldl_Pipe_end])
  then have "listeners_but (({Ev_data} \<union> {Ev_error}) \<union> {Ev_end}) s ?s4"
    by (rule listeners_but_trans [OF _ listeners_but_deliver])
  then have "listeners_but ((({Ev_data} \<union> {Ev_error}) \<union> {Ev_end}) \<union> {Ev_end}) s
               (removeAllListeners (Some Ev_end) ?s4)"
    by (rule listeners_but_trans [OF _ listeners_but_removeAll])
  then show ?thesis by (simp add: snd_EMITEND2 insert_commute)
qed

lemma quiet_EMITEND2 [simp]: "quiet s (snd (EMITEND2 E s))"
proof -
  let ?s1 = "decoder_end E s"
  let ?s3 = "foldl (\<lambda>t p. Pipe_end p t) ?s1 (pipes s)"
  let ?s4 = "snd (deliver Ev_end Undefined ?s3)"
  have "quiet s ?s3" by (rule quiet_trans [OF quiet_decoder_end quiet_foldl_Pipe_end])
  then have "quiet s ?s4" by (rule quiet_trans [OF _ quiet_deliver])
  then have "quiet s (removeAllListeners (Some Ev_end) ?s4)"
    by (rule quiet_trans [OF _ quiet_removeAll])
  then show ?thesis by (simp add: snd_EMITEND2)
qed

lemma trace_EMITEND2: "trace (snd (EMITEND2 E s)) = trace s @ EMITEND2_obs E s"
proof -
  let ?s1 = "decoder_end E s"
  let ?s3 = "foldl (\<lambda>t p. Pipe_end p t) ?s1 (pipes s)"
  have "listeners_but ({Ev_data} \<union> {Ev_error}) s ?s3"
    by (rule listeners_but_trans [OF listeners_but_decoder_end listeners_but_foldl_Pipe_end])
  then have "listeners ?s3 Ev_end = listeners s Ev_end"
    by (rule listeners_butD) simp
  then show ?thesis
    by (simp add: snd_EMITEND2 trace_foldl_Pipe_end trace_decoder_end EMITEND2_obs_def calls_def)
qed


lemma EMITEND2_obs_cong:
  "decoder t = decoder s \<Longrightarrow> pipes t = pipes s \<Longrightarrow> discarded t = discarded s \<Longrightarrow>
   listeners t = listeners s \<Longrightarrow> EMITEND2_obs E t = EMITEND2_obs E s"
  by (simp add: EMITEND2_obs_def flush_data_def calls_def)

lemma EMITEND_fresh:
  assumes "\<not> emittedEnd s"
  shows "trace (snd (EMITEND E s)) = trace s @ (if async s then [] else EMITEND2_obs E s)"
    and "emittedEnd (snd (EMITEND E s))"
    and "closed (snd (EMITEND E s)) = closed s"
    and "emittingEnd (snd (EMITEND E s)) = emittingEnd s"
    and "deferred (snd (EMITEND E s)) = deferred s @ (if async s then [T_EMITEND2] else [])"
    and "listeners_but {Ev_data, Ev_error, Ev_end} s (snd (EMITEND E s))"
proof -
  let ?s1 = "s\<lparr>emittedEnd := True, readable := False\<rparr>"
  have eq: "snd (EMITEND E s) =
      (if async s then defer_task T_EMITEND2 ?s1 else snd (EMITEND2 E ?s1))"
    using assms by (simp add: EMITEND_def Let_def)
  have obs: "EMITEND2_obs E ?s1 = EMITEND2_obs E s" by (rule EMITEND2_obs_cong) simp_all
  have q: "quiet ?s1 (snd (EMITEND2 E ?s1))" by simp
  have l: "listeners_but {Ev_data, Ev_error, Ev_end} ?s1 (snd (EMITEND2 E ?s1))"
    by (rule listeners_but_EMITEND2)
  show "trace (snd (EMITEND E s)) = trace s @ (if async s then [] else EMITEND2_obs E s)"
    by (simp add: eq trace_EMITEND2 obs defer_task_def)
  show "emittedEnd (snd (EMITEND E s))"
    using q by (simp add: eq quiet_def defer_task_def)
  show "closed (snd (EMITEND E s)) = closed s"
    using q by (simp add: eq quiet_def defer_task_def)
  show "emittingEnd (snd (EMITEND E s)) = emittingEnd s"
    using q by (simp add: eq quiet_def defer_task_def)
  show "deferred (snd (EMITEND E s)) = deferred s @ (if async s then [T_EMITEND2] else [])"
    using q by (simp add: eq quiet_def defer_task_def)
  show "listeners_but {Ev_data, Ev_error, Ev_end} s (snd (EMITEND E s))"
    using l by (simp add: eq listeners_but_def defer_task_def)
qed

lemma emit_endish_finish:
  assumes "ev = Ev_prefinish \<or> ev = Ev_finish" and "\<not> destroyed s"
  shows "trace (snd (emit_endish E ev s)) = trace s @ calls ev Undefined s"
    and "quiet s (snd (emit_endish E ev s))"
    and "listeners_but {ev} s (snd (emit_endish E ev s))"
proof -
  have eq: "snd (emit_endish E ev s) = removeAllListeners (Some ev) (snd (deliver ev Undefined s))"
    using assms by (auto simp: emit_endish_def Let_def split_beta)
  show "trace (snd (emit_endish E ev s)) = trace s @ calls ev Undefined s"
    by (simp add: eq calls_def)
  show "quiet s (snd (emit_endish E ev s))"
    unfolding eq by (rule quiet_trans [OF quiet_deliver quiet_removeAll])
  show "listeners_but {ev} s (snd (emit_endish E ev s))"
    unfolding eq
    using listeners_but_trans [OF listeners_but_deliver [of ev s Undefined]
        listeners_but_removeAll [of ev "snd (deliver ev Undefined s)"]]
    by simp
qed

lemma emit_endish_close:
  assumes "emittedEnd s \<or> destroyed s"
  shows "trace (snd (emit_endish E Ev_close s)) = trace s @ calls Ev_close Undefined s"
    and "emittedEnd (snd (emit_endish E Ev_close s)) = emittedEnd s"
    and "deferred (snd (emit_endish E Ev_close s)) = deferred s"
    and "closed (snd (emit_endish E Ev_close s))"
proof -
  let ?s1 = "s\<lparr>closed := True\<rparr>"
  have eq: "snd (emit_endish E Ev_close s) =
      removeAllListeners (Some Ev_close) (snd (deliver Ev_close Undefined ?s1))"
    using assms by (auto simp: emit_endish_def Let_def split_beta)
  have q: "quiet ?s1 (removeAllListeners (Some Ev_close) (snd (deliver Ev_close Undefined ?s1)))"
    by (rule quiet_trans [OF quiet_deliver quiet_removeAll])
  show "trace (snd (emit_endish E Ev_close s)) = trace s @ calls Ev_close Undefined s"
    by (simp add: eq calls_def)
  show "emittedEnd (snd (emit_endish E Ev_close s)) = emittedEnd s"
    using q by (simp add: eq quiet_def)
  show "deferred (snd (emit_endish E Ev_close s)) = deferred s"
    using q by (simp add: eq quiet_def)
  show "closed (snd (emit_endish E Ev_close s))"
    using q by (simp add: eq quiet_def)
qed

lemma MAYBE_EMIT_END_idle: "\<not> endCondition s \<Longrightarrow> MAYBE_EMIT_END E s = s"
  by (auto simp: MAYBE_EMIT_END_def endCondition_def)

lemma MAYBE_EMIT_END_fires:
  assumes "endCondition s"
  shows "trace (MAYBE_EMIT_END E s) = trace s @ MAYBE_EMIT_END_obs E s"
    and "emittedEnd (MAYBE_EMIT_END E s)"
    and "deferred (MAYBE_EMIT_END E s) = deferred s @ (if async s then [T_EMITEND2] else [])"
    and "\<not> emittingEnd (MAYBE_EMIT_END E s)"
proof -
  let ?s1 = "s\<lparr>emittingEnd := True\<rparr>"
  let ?s2 = "snd (emit_endish E Ev_end ?s1)"
  let ?s3 = "snd (emit_endish E Ev_prefinish ?s2)"
  let ?s4 = "snd (emit_endish E Ev_finish ?s3)"
  let ?s5 = "if closed ?s4 then snd (emit_endish E Ev_close ?s4) else ?s4"
  have c: "\<not> emittedEnd ?s1" "\<not> destroyed ?s1" using assms by (simp_all add: endCondition_def)
  have e2: "?s2 = snd (EMITEND E ?s1)" using c by (simp add: emit_endish_def)
  have obs1: "EMITEND2_obs E ?s1 = EMITEND2_obs E s" by (rule EMITEND2_obs_cong) simp_all
  note E = EMITEND_fresh [OF c(1), of E, folded e2]
  have d2: "\<not> destroyed ?s2" using frame_emit_endish [of ?s1 E Ev_end] c by (simp add: frame_def)
  have l2: "listeners ?s2 ev = listeners s ev" if "ev \<notin> {Ev_data, Ev_error, Ev_end}" for ev
    using listeners_butD [OF E(6) that] by simp
  note P = emit_endish_finish [of Ev_prefinish ?s2 E, OF _ d2, simplified]
  have d3: "\<not> destroyed ?s3"
    using frame_emit_endish [of ?s2 E Ev_prefinish] d2 by (simp add: frame_def)
  have l3: "listeners ?s3 ev = listeners s ev"
    if "ev \<notin> {Ev_data, Ev_error, Ev_end, Ev_prefinish}" for ev
  proof -
    have "listeners ?s3 ev = listeners ?s2 ev" using listeners_butD [OF P(3)] that by simp
    then show ?thesis using l2 [of ev] that by simp
  qed
  note F = emit_endish_finish [of Ev_finish ?s3 E, OF _ d3, simplified]
  have l4: "listeners ?s4 Ev_close = listeners s Ev_close"
  proof -
    have "listeners ?s4 Ev_close = listeners ?s3 Ev_close"
      using listeners_butD [OF F(3)] by simp
    then show ?thesis using l3 [of Ev_close] by simp
  qed
  have q3: "quiet ?s2 ?s3" by (rule P(2))
  have q4: "quiet ?s3 ?s4" by (rule F(2))
  have q24: "quiet ?s2 ?s4" by (rule quiet_trans [OF q3 q4])
  have cl4: "closed ?s4 = closed s" using q24 E(3) by (simp add: quiet_def)
  have ee4: "emittedEnd ?s4" using q24 E(2) by (simp add: quiet_def)
  have df4: "deferred ?s4 = deferred s @ (if async s then [T_EMITEND2] else [])"
    using q24 E(5) by (simp add: quiet_def)
  have tr4: "trace ?s4 = trace s @ (if async s then [] else EMITEND2_obs E s) @
               calls Ev_prefinish Undefined s @ calls Ev_finish Undefined s"
    using E(1) P(1) F(1) l2 [of Ev_prefinish] l3 [of Ev_finish]
    by (simp add: obs1 calls_def)
  note C = emit_endish_close [of ?s4 E, OF disjI1 [OF ee4]]
  have tr5: "trace ?s5 = trace s @ MAYBE_EMIT_END_obs E s"
    using tr4 C(1) cl4 l4 assms by (simp add: MAYBE_EMIT_END_obs_def calls_def)
  have ee5: "emittedEnd ?s5" using ee4 C(2) by simp
  have df5: "deferred ?s5 = deferred s @ (if async s then [T_EMITEND2] else [])"
    using df4 C(3) by simp
  have eq: "MAYBE_EMIT_END E s = ?s5\<lparr>emittingEnd := False\<rparr>"
    using assms by (simp add: MAYBE_EMIT_END_def endCondition_def Let_def)
  show "trace (MAYBE_EMIT_END E s) = trace s @ MAYBE_EMIT_END_obs E s"
    unfolding eq using tr5 by simp
  show "emittedEnd (MAYBE_EMIT_END E s)" unfolding eq using ee5 by simp
  show "deferred (MAYBE_EMIT_END E s) = deferred s @ (if async s then [T_EMITEND2] else [])"
    unfolding eq using df5 by simp
  show "\<not> emittingEnd (MAYBE_EMIT_END E s)" unfolding eq by simp
qed

lemma trace_MAYBE_EMIT_END:
  "trace (MAYBE_EMIT_END E s) = trace s @ MAYBE_EMIT_END_obs E s"
proof (cases "endCondition s")
  case True
  then show ?thesis by (rule MAYBE_EMIT_END_fires)
next
  case False
  then show ?thesis by (simp add: MAYBE_EMIT_END_idle MAYBE_EMIT_END_obs_def)
qed

subsection \<open>Reading the trace\<close>

text \<open>The calls of handlers for the events of a set, as the trace has them.\<close>

fun is_call_of :: "event set \<Rightarrow> obs \<Rightarrow> bool" where
  "is_call_of X (Call ev h a) = (ev \<in> X)"
| "is_call_of X x = False"

definition calls_of :: "event set \<Rightarrow> obs list \<Rightarrow> obs list" where
  "calls_of X tr = filter (is_call_of X) tr"

fun handler_call :: "event \<Rightarrow> val \<Rightarrow> listener \<Rightarrow> obs list" where
  "handler_call ev a (Handler h) = [Call ev h a]"
| "handler_call ev a (OnceHandler h) = [Call ev h a]"
| "handler_call ev a (ProxyErrors d) = []"

definition handler_calls :: "event \<Rightarrow> val \<Rightarrow> minipass \<Rightarrow> obs list" where
  "handler_calls ev a s = concat (map (handler_call ev a) (listeners s ev))"

lemma calls_of_append [simp]: "calls_of X (xs @ ys) = calls_of X xs @ calls_of X ys"
  by (simp add: calls_of_def)

lemma calls_of_Nil [simp]: "calls_of X [] = []"
  by (simp add: calls_of_def)

lemma calls_of_map_call_listener:
  "calls_of X (map (call_listener ev a) ls) =
     (if ev \<in> X then concat (map (handler_call ev a) ls) else [])"
proof (induction ls)
  case Nil
  show ?case by simp
next
  case (Cons l ls)
  then show ?case by (cases l) (simp_all add: calls_of_def)
qed

lemma calls_of_calls [simp]:
  "calls_of X (calls ev a s) = (if ev \<in> X then handler_calls ev a s else [])"
  by (simp add: calls_def handler_calls_def calls_of_map_call_listener)

lemma calls_of_pipe_writes [simp]: "calls_of X (pipe_writes v ps) = []"
  by (induction ps) (simp_all add: calls_of_def pipe_writes_def)

lemma calls_of_pipe_ends [simp]: "calls_of X (pipe_ends ps) = []"
  by (induction ps) (simp_all add: calls_of_def pipe_ends_def)

lemma calls_of_EMITEND2_obs:
  "calls_of X (EMITEND2_obs E s) =
     (if flush_data E s \<noteq> [] \<and> \<not> discarded s \<and> Ev_data \<in> X
      then handler_calls Ev_data (Str (flush_data E s)) s else []) @
     (if Ev_end \<in> X then handler_calls Ev_end Undefined s else [])"
  by (simp add: EMITEND2_obs_def)

lemma calls_of_MAYBE_EMIT_END_obs:
  "X \<inter> {Ev_data, Ev_end, Ev_prefinish, Ev_finish, Ev_close} = {} \<Longrightarrow>
   calls_of X (MAYBE_EMIT_END_obs E s) = []"
  by (simp add: MAYBE_EMIT_END_obs_def calls_of_EMITEND2_obs)

subsection \<open>Emitting an error\<close>

definition calm :: "minipass \<Rightarrow> minipass \<Rightarrow> bool" where
  "calm s s' =
     (paused s' = paused s \<and> discarded s' = discarded s \<and> emittedError s' = emittedError s)"

lemma calm_refl [simp]: "calm s s"
  by (simp add: calm_def)

lemma calm_trans: "calm s t \<Longrightarrow> calm t u \<Longrightarrow> calm s u"
  by (simp add: calm_def)

lemma quiet_calm: "quiet s s' \<Longrightarrow> calm s s'"
  by (simp add: quiet_def calm_def)

lemma calm_EMITEND [simp]: "calm s (snd (EMITEND E s))"
proof -
  let ?s1 = "s\<lparr>emittedEnd := True, readable := False\<rparr>"
  have a: "calm s ?s1" by (simp add: calm_def)
  have b: "calm s (snd (EMITEND2 E ?s1))"
    by (rule calm_trans [OF a quiet_calm [OF quiet_EMITEND2]])
  have c: "calm s (defer_task T_EMITEND2 ?s1)" by (simp add: calm_def defer_task_def)
  show ?thesis using b c by (simp add: EMITEND_def Let_def)
qed

lemma calm_emit_endish [simp]: "calm s (snd (emit_endish E ev s))"
proof -
  let ?s1 = "s\<lparr>closed := True\<rparr>"
  have a: "calm s ?s1" by (simp add: calm_def)
  have b: "calm ?s1 (removeAllListeners (Some Ev_close) (snd (deliver Ev_close Undefined ?s1)))"
    by (rule quiet_calm [OF quiet_trans [OF quiet_deliver quiet_removeAll]])
  have c: "calm s (removeAllListeners (Some ev) (snd (deliver ev Undefined s)))"
    by (rule quiet_calm [OF quiet_trans [OF quiet_deliver quiet_removeAll]])
  show ?thesis
    using a calm_trans [OF a b] c by (simp add: emit_endish_def Let_def split_beta)
qed

lemma calm_MAYBE_EMIT_END [simp]: "calm s (MAYBE_EMIT_END E s)"
proof (cases "\<not> emittingEnd s \<and> \<not> emittedEnd s \<and> \<not> destroyed s \<and> buffer s = [] \<and> eof s")
  case False
  then show ?thesis by (auto simp: MAYBE_EMIT_END_def)
next
  case True
  let ?s1 = "s\<lparr>emittingEnd := True\<rparr>"
  let ?s2 = "snd (emit_endish E Ev_end ?s1)"
  let ?s3 = "snd (emit_endish E Ev_prefinish ?s2)"
  let ?s4 = "snd (emit_endish E Ev_finish ?s3)"
  let ?s5 = "if closed ?s4 then snd (emit_endish E Ev_close ?s4) else ?s4"
  have f1: "calm s ?s1" by (simp add: calm_def)
  have f2: "calm s ?s2" by (rule calm_trans [OF f1 calm_emit_endish])
  have f3: "calm s ?s3" by (rule calm_trans [OF f2 calm_emit_endish])
  have f4: "calm s ?s4" by (rule calm_trans [OF f3 calm_emit_endish])
  have f5: "calm s ?s5"
    using f4 calm_trans [OF f4 calm_emit_endish] by (cases "closed ?s4") simp_all
  have f6: "calm ?s5 (?s5\<lparr>emittingEnd := False\<rparr>)" by (simp add: calm_def)
  have "MAYBE_EMIT_END E s = ?s5\<lparr>emittingEnd := False\<rparr>"
    using True by (simp add: MAYBE_EMIT_END_def Let_def)
  then show ?thesis using calm_trans [OF f5 f6] by simp
qed

lemma emit_guard:
  "destroyed s \<Longrightarrow> ev \<noteq> Ev_error \<Longrightarrow> ev \<noteq> Ev_close \<Longrightarrow> ev \<noteq> Sym_DESTROYED \<Longrightarrow>
   emit E ev a s = (Ret False, s)"
  by (simp add: emit_def)

text \<open>The three ways \<^verbatim>\<open>emit('error', a)\<close> ends.\<close>

definition latched :: "val \<Rightarrow> minipass \<Rightarrow> minipass" where
  "latched a s = snd (deliver Sym_ERROR a (s\<lparr>emittedError := a\<rparr>))"

lemma latched_facts:
  "listeners (latched a s) Ev_error = listeners s Ev_error"
  "signal (latched a s) = signal s"
  "trace (latched a s) = trace s @ calls Sym_ERROR a s"
  "emittedError (latched a s) = a"
  "frame s (latched a s)"
proof -
  let ?s1 = "s\<lparr>emittedError := a\<rparr>"
  have f: "frame ?s1 (snd (deliver Sym_ERROR a ?s1))" by simp
  have q: "quiet ?s1 (snd (deliver Sym_ERROR a ?s1))" by simp
  show "listeners (latched a s) Ev_error = listeners s Ev_error" by (simp add: latched_def)
  show "signal (latched a s) = signal s" using f by (simp add: latched_def frame_def)
  show "trace (latched a s) = trace s @ calls Sym_ERROR a s" by (simp add: latched_def calls_def)
  show "emittedError (latched a s) = a" using q by (simp add: latched_def quiet_def)
  show "frame s (latched a s)" using f by (simp add: latched_def frame_def)
qed

lemma emit_error_cases:
  "listeners s Ev_error = [] \<Longrightarrow> signal s = None \<Longrightarrow>
     emit E Ev_error a s = (Threw (Unhandled a), latched a s)"
  "listeners s Ev_error = [] \<Longrightarrow> signal s \<noteq> None \<Longrightarrow>
     emit E Ev_error a s = (Ret False, MAYBE_EMIT_END E (latched a s))"
  "listeners s Ev_error \<noteq> [] \<Longrightarrow>
     emit E Ev_error a s = (Ret True, MAYBE_EMIT_END E (snd (deliver Ev_error a (latched a s))))"
  using latched_facts(1,2) [where a=a and s=s]
  by (simp_all add: emit_def Let_def split_beta latched_def [symmetric])

lemma emit_error_general:
  "emittedError (snd (emit E Ev_error a s)) = a"
  "\<exists>rest. trace (snd (emit E Ev_error a s)) =
       trace s @ calls Sym_ERROR a s @
       (if signal s \<noteq> None \<and> listeners s Ev_error = [] then [] else calls Ev_error a s) @ rest \<and>
     calls_of {Ev_error, Sym_ERROR} rest = [] \<and>
     (destroyed s \<longrightarrow> rest = [])"
  "fst (emit E Ev_error a s) =
     (if listeners s Ev_error \<noteq> [] then Ret True
      else if signal s = None then Threw (Unhandled a) else Ret False)"
proof -
  let ?l = "latched a s"
  let ?d = "snd (deliver Ev_error a ?l)"
  have ed: "emittedError ?d = a" using quiet_deliver [of ?l Ev_error a] latched_facts(4) [where a=a and s=s]
    by (simp add: quiet_def)
  have trd: "trace ?d = trace s @ calls Sym_ERROR a s @ calls Ev_error a s"
    using latched_facts(1,3) [where a=a and s=s] by (simp add: calls_def)
  have dl: "destroyed ?l = destroyed s" using latched_facts(5) [where a=a and s=s] by (simp add: frame_def)
  have dd: "destroyed ?d = destroyed s"
    using frame_deliver [of ?l Ev_error a] dl by (simp add: frame_def)
  have idle: "destroyed t \<Longrightarrow> MAYBE_EMIT_END_obs E t = []" for t
    by (simp add: MAYBE_EMIT_END_obs_def endCondition_def)
  consider (thr) "listeners s Ev_error = []" "signal s = None"
    | (sup) "listeners s Ev_error = []" "signal s \<noteq> None"
    | (pub) "listeners s Ev_error \<noteq> []" by blast
  then have "emittedError (snd (emit E Ev_error a s)) = a \<and>
     (\<exists>rest. trace (snd (emit E Ev_error a s)) =
       trace s @ calls Sym_ERROR a s @
       (if signal s \<noteq> None \<and> listeners s Ev_error = [] then [] else calls Ev_error a s) @ rest \<and>
     calls_of {Ev_error, Sym_ERROR} rest = [] \<and>
     (destroyed s \<longrightarrow> rest = [])) \<and>
     fst (emit E Ev_error a s) =
     (if listeners s Ev_error \<noteq> [] then Ret True
      else if signal s = None then Threw (Unhandled a) else Ret False)"
  proof cases
    case thr
    then show ?thesis
      by (simp add: emit_error_cases(1) latched_facts calls_def)
  next
    case sup
    have "emittedError (MAYBE_EMIT_END E ?l) = a"
      using calm_MAYBE_EMIT_END [of ?l E] latched_facts(4) [where a=a and s=s] by (simp add: calm_def)
    moreover have "trace (MAYBE_EMIT_END E ?l) =
        trace s @ calls Sym_ERROR a s @ MAYBE_EMIT_END_obs E ?l"
      by (simp add: trace_MAYBE_EMIT_END latched_facts)
    moreover have "calls_of {Ev_error, Sym_ERROR} (MAYBE_EMIT_END_obs E ?l) = []"
      by (rule calls_of_MAYBE_EMIT_END_obs) simp
    ultimately show ?thesis using sup idle [of ?l] dl
      by (simp add: emit_error_cases(2))
  next
    case pub
    have "emittedError (MAYBE_EMIT_END E ?d) = a"
      using calm_MAYBE_EMIT_END [of ?d E] ed by (simp add: calm_def)
    moreover have "trace (MAYBE_EMIT_END E ?d) =
        trace s @ calls Sym_ERROR a s @ calls Ev_error a s @ MAYBE_EMIT_END_obs E ?d"
      unfolding trace_MAYBE_EMIT_END trd by simp
    moreover have "calls_of {Ev_error, Sym_ERROR} (MAYBE_EMIT_END_obs E ?d) = []"
      by (rule calls_of_MAYBE_EMIT_END_obs) simp
    ultimately show ?thesis using pub idle [of ?d] dd
      by (simp add: emit_error_cases(3))
  qed
  then show "emittedError (snd (emit E Ev_error a s)) = a"
    and "\<exists>rest. trace (snd (emit E Ev_error a s)) =
       trace s @ calls Sym_ERROR a s @
       (if signal s \<noteq> None \<and> listeners s Ev_error = [] then [] else calls Ev_error a s) @ rest \<and>
     calls_of {Ev_error, Sym_ERROR} rest = [] \<and>
     (destroyed s \<longrightarrow> rest = [])"
    and "fst (emit E Ev_error a s) =
     (if listeners s Ev_error \<noteq> [] then Ret True
      else if signal s = None then Threw (Unhandled a) else Ret False)"
    by blast+
qed

text \<open>What a consumer receives: the calls of data handlers and the writes to destinations.\<close>

fun is_data_obs :: "obs \<Rightarrow> bool" where
  "is_data_obs (Call ev h a) = (ev = Ev_data)"
| "is_data_obs (DestWrite d a) = True"
| "is_data_obs x = False"

definition data_out :: "obs list \<Rightarrow> obs list" where
  "data_out tr = filter is_data_obs tr"

lemma data_out_append [simp]: "data_out (xs @ ys) = data_out xs @ data_out ys"
  by (simp add: data_out_def)

lemma data_out_calls [simp]: "ev \<noteq> Ev_data \<Longrightarrow> data_out (calls ev a s) = []"
proof -
  have "ev \<noteq> Ev_data \<Longrightarrow> filter is_data_obs (map (call_listener ev a) ls) = []" for ls
  proof (induction ls)
    case (Cons l ls)
    then show ?case by (cases l) simp_all
  qed simp
  then show "ev \<noteq> Ev_data \<Longrightarrow> data_out (calls ev a s) = []"
    by (simp add: data_out_def calls_def)
qed

section \<open>The buffer length\<close>

text \<open>
  The invariant of the buffer: \<open>bufferLength\<close> is the number of buffered items in object
  mode and the sum of their lengths otherwise.
\<close>

definition bufferLength_ok :: "minipass \<Rightarrow> bool" where
  "bufferLength_ok s =
     (bufferLength s = (if objectMode s then int (length (buffer s))
                        else sum_list (map vlen (buffer s))))"

text \<open>No emission touches the buffer; pushing and shifting keep it in step.\<close>

lemma ok_frame: "frame s s' \<Longrightarrow> bufferLength_ok s \<Longrightarrow> bufferLength_ok s'"
  by (simp add: frame_def bufferLength_ok_def)

lemma ok_emit_drop [simp]: "bufferLength_ok s \<Longrightarrow> bufferLength_ok (emit_drop E ev a s)"
  by (rule ok_frame [OF frame_emit_drop])

lemma ok_MAYBE_EMIT_END [simp]: "bufferLength_ok s \<Longrightarrow> bufferLength_ok (MAYBE_EMIT_END E s)"
  by (rule ok_frame [OF frame_MAYBE_EMIT_END])

lemma ok_emit [simp]: "bufferLength_ok s \<Longrightarrow> bufferLength_ok (snd (emit E ev a s))"
  by (rule ok_frame [OF frame_emit])

lemma ok_BUFFERPUSH [simp]: "bufferLength_ok s \<Longrightarrow> bufferLength_ok (BUFFERPUSH c s)"
  by (simp add: BUFFERPUSH_def bufferLength_ok_def Let_def)

lemma ok_BUFFERSHIFT:
  "bufferLength_ok s \<Longrightarrow> buffer s \<noteq> [] \<Longrightarrow> bufferLength_ok (snd (BUFFERSHIFT s))"
  by (cases "buffer s") (simp_all add: BUFFERSHIFT_def bufferLength_ok_def Let_def)

lemma ok_nonempty: "bufferLength_ok s \<Longrightarrow> bufferLength s \<noteq> 0 \<Longrightarrow> buffer s \<noteq> []"
  by (auto simp: bufferLength_ok_def split: if_splits)

lemma ok_FLUSH_loop:
  "bufferLength_ok s \<Longrightarrow> buffer s \<noteq> [] \<Longrightarrow> bufferLength_ok (snd (FLUSH_loop E s))"
proof (induction E s rule: FLUSH_loop.induct)
  case (1 E s)
  obtain r s1 where bs: "BUFFERSHIFT s = (r, s1)" by (cases "BUFFERSHIFT s")
  have ok1: "bufferLength_ok s1" using ok_BUFFERSHIFT [OF "1.prems"] bs by simp
  show ?case
  proof (cases r)
    case (Threw e)
    then show ?thesis using bs ok1 by (simp add: FLUSH_loop.simps [of E s])
  next
    case (Ret c)
    let ?s2 = "emit_drop E Ev_data c s1"
    have ok2: "bufferLength_ok ?s2" using ok1 by simp
    show ?thesis
    proof (cases "flowing ?s2 \<and> buffer ?s2 \<noteq> []")
      case True
      have "bufferLength_ok (snd (FLUSH_loop E ?s2))"
        using "1.IH" [OF bs [symmetric] Ret refl True ok2] True by simp
      then show ?thesis
        using True bs Ret by (simp add: FLUSH_loop.simps [of E s] Let_def)
    next
      case False
      then show ?thesis using bs Ret ok2 by (auto simp: FLUSH_loop.simps [of E s] Let_def)
    qed
  qed
qed

lemma ok_FLUSH:
  assumes "bufferLength_ok s" "buffer s \<noteq> []"
  shows "bufferLength_ok (snd (FLUSH E nd s))"
proof -
  obtain r s1 where fl: "FLUSH_loop E s = (r, s1)" by (cases "FLUSH_loop E s")
  have a: "bufferLength_ok s1" using ok_FLUSH_loop [OF assms, of E] fl by simp
  have b: "bufferLength_ok (emit_drop E Ev_drain Undefined s1)" using a by simp
  show ?thesis using fl a b by (cases r) (simp_all add: FLUSH_def)
qed

lemma ok_RESUME:
  assumes "bufferLength_ok s"
  shows "bufferLength_ok (snd (RESUME E s))"
proof (cases "destroyed s")
  case True
  then show ?thesis using assms by (simp add: RESUME_def)
next
  case False
  define s2 where "s2 = (if dataListeners s = 0 \<and> pipes s = [] then s\<lparr>discarded := True\<rparr> else s)
                          \<lparr>paused := False, flowing := True\<rparr>"
  define s3 where "s3 = emit_drop E Ev_resume Undefined s2"
  have a: "bufferLength_ok s2" using assms by (simp add: s2_def bufferLength_ok_def)
  have b: "bufferLength_ok s3" unfolding s3_def using a by simp
  have c: "buffer s3 \<noteq> [] \<Longrightarrow> bufferLength_ok (snd (FLUSH E False s3))"
    by (rule ok_FLUSH [OF b])
  have d: "bufferLength_ok (MAYBE_EMIT_END E s3)" using b by simp
  have e: "bufferLength_ok (emit_drop E Ev_drain Undefined s3)" using b by simp
  have "RESUME E s = (if buffer s3 \<noteq> [] then FLUSH E False s3
               else if eof s3 then (Ret (), MAYBE_EMIT_END E s3)
               else (Ret (), emit_drop E Ev_drain Undefined s3))"
    using False by (simp add: RESUME_def s3_def s2_def Let_def)
  then show ?thesis using c d e by simp
qed

lemma ok_call_cb [simp]: "bufferLength_ok s \<Longrightarrow> bufferLength_ok (call_cb cb s)"
  by (cases cb) (simp_all add: call_cb_def bufferLength_ok_def defer_task_def record_obs_def)

lemma ok_write_tail:
  assumes "bufferLength_ok s"
  shows "bufferLength_ok (snd (write_tail E chunk cb s))"
proof -
  obtain r s1 where fl:
    "(if flowing s \<and> bufferLength s \<noteq> 0 then FLUSH E True s else (Ret (), s)) = (r, s1)"
    by (cases "if flowing s \<and> bufferLength s \<noteq> 0 then FLUSH E True s else (Ret (), s)")
  have ok1: "bufferLength_ok s1"
  proof (cases "flowing s \<and> bufferLength s \<noteq> 0")
    case True
    then have "s1 = snd (FLUSH E True s)" using fl by simp
    then show ?thesis using ok_FLUSH [OF assms ok_nonempty [OF assms]] True by simp
  next
    case False
    then show ?thesis using fl assms by auto
  qed
  let ?s2 = "if flowing s1 then emit_drop E Ev_data chunk s1 else BUFFERPUSH chunk s1"
  have ok2: "bufferLength_ok ?s2" using ok1 by simp
  let ?s3 = "if bufferLength ?s2 \<noteq> 0 then emit_drop E Ev_readable Undefined ?s2 else ?s2"
  have ok3: "bufferLength_ok ?s3" using ok2 by simp
  have ok4: "bufferLength_ok (call_cb cb ?s3)" using ok3 by (rule ok_call_cb)
  show ?thesis
  proof (cases r)
    case (Threw e)
    then show ?thesis using fl ok1 unfolding write_tail_def by simp
  next
    case (Ret u)
    have "snd (write_tail E chunk cb s) = call_cb cb ?s3"
      unfolding write_tail_def fl using Ret by (simp add: Let_def)
    then show ?thesis using ok4 by simp
  qed
qed

lemma ok_decode_chunk:
  "bufferLength_ok s \<Longrightarrow> bufferLength_ok (snd (decode_chunk E c s))"
  by (cases c) (auto simp: bufferLength_ok_def split_beta Let_def split: option.splits)

lemma ok_write_mp:
  assumes "bufferLength_ok s"
  shows "bufferLength_ok (snd (write_mp E chunk enc cb s))"
proof -
  consider (ab) "aborted s" | (eo) "\<not> aborted s" "eof s"
    | (de) "\<not> aborted s" "\<not> eof s" "destroyed s"
    | (ob) "\<not> aborted s" "\<not> eof s" "\<not> destroyed s" "objectMode s"
    | (bt) "\<not> aborted s" "\<not> eof s" "\<not> destroyed s" "\<not> objectMode s"
    by blast
  then show ?thesis
  proof cases
    case ab
    then show ?thesis using assms by (simp add: write_mp_def)
  next
    case eo
    then show ?thesis using assms by (simp add: write_mp_def)
  next
    case de
    obtain r s1 where em: "emit E Ev_error ERR_STREAM_DESTROYED s = (r, s1)"
      by (cases "emit E Ev_error ERR_STREAM_DESTROYED s")
    have "bufferLength_ok s1" using ok_emit [OF assms, of E Ev_error ERR_STREAM_DESTROYED] em by simp
    then show ?thesis using de em by (cases r) (simp_all add: write_mp_def)
  next
    case ob
    then have "write_mp E chunk enc cb s = write_tail E chunk cb s"
      by (simp add: write_mp_def Let_def)
    then show ?thesis using ok_write_tail [OF assms] by simp
  next
    case bt
    show ?thesis
    proof (cases "contiguous chunk")
      case None
      then show ?thesis using bt assms by (simp add: write_mp_def Let_def)
    next
      case (Some c)
      show ?thesis
      proof (cases "vlen c = 0")
        case True
        have "snd (write_mp E chunk enc cb s) =
            call_cb cb (if bufferLength s \<noteq> 0 then emit_drop E Ev_readable Undefined s else s)"
          using bt Some True by (simp add: write_mp_def Let_def)
        then show ?thesis using assms by simp
      next
        case False
        define c1 where "c1 = (if isString c \<and> \<not> (Some (enc_or_utf8 enc) = encoding s \<and> \<not> lastNeed E s)
                                then to_buffer E (enc_or_utf8 enc) c else c)"
        obtain r s1 where dc: "decode_chunk E c1 s = (r, s1)" by (cases "decode_chunk E c1 s")
        have ok1: "bufferLength_ok s1" using ok_decode_chunk [OF assms, of E c1] dc by simp
        have w: "write_mp E chunk enc cb s =
            (case decode_chunk E c1 s of
               (Threw e, s1) \<Rightarrow> (Threw e, s1)
             | (Ret c2, s1) \<Rightarrow> write_tail E c2 cb s1)"
          using bt Some False unfolding write_mp_def Let_def c1_def by simp
        show ?thesis
          unfolding w dc using ok1 ok_write_tail [OF ok1] by (cases r) simp_all
      qed
    qed
  qed
qed

text \<open>
  Reading: the coalescing step keeps the invariant, and so does \<^verbatim>\<open>[READ]\<close> for an \<open>n\<close>
  between 1 and \<open>bufferLength\<close>.
\<close>

lemma ok_coalesce:
  assumes "bufferLength_ok s"
  shows "bufferLength_ok (snd (coalesce s))"
    and "\<not> objectMode (snd (coalesce s))  \<Longrightarrow> fst (coalesce s) = Ret () \<Longrightarrow>
         length (buffer (snd (coalesce s))) \<le> 1"
    and "buffer s \<noteq> [] \<Longrightarrow> buffer (snd (coalesce s)) \<noteq> []"
    and "stable s (snd (coalesce s))"
proof -
  have st: "strings_of vs = Some xs \<Longrightarrow> sum_list (map vlen vs) = int (length (concat xs))" for vs xs
  proof (induction vs arbitrary: xs)
    case Nil
    then show ?case by simp
  next
    case (Cons v vs)
    then show ?case by (cases v) auto
  qed
  have bu: "buffers_of vs = Some bs \<Longrightarrow> sum_list (map vlen vs) = int (length (concat bs))" for vs bs
  proof (induction vs arbitrary: bs)
    case Nil
    then show ?case by simp
  next
    case (Cons v vs)
    then show ?case by (cases v) auto
  qed
  show "bufferLength_ok (snd (coalesce s))"
    using assms st bu
    by (auto simp: coalesce_def bufferLength_ok_def Buffer_concat_def Let_def split: option.splits)
  show "\<not> objectMode (snd (coalesce s))  \<Longrightarrow> fst (coalesce s) = Ret () \<Longrightarrow>
         length (buffer (snd (coalesce s))) \<le> 1"
    by (auto simp: coalesce_def split: option.splits if_splits)
  show "buffer s \<noteq> [] \<Longrightarrow> buffer (snd (coalesce s)) \<noteq> []"
    by (auto simp: coalesce_def split: option.splits if_splits)
  show "stable s (snd (coalesce s))"
    by (auto simp: coalesce_def stable_def split: option.splits if_splits)
qed

lemma ok_READ:
  assumes ok: "bufferLength_ok s" and ne: "buffer s \<noteq> []"
    and one: "\<not> objectMode s \<Longrightarrow> length (buffer s) \<le> 1"
    and n: "n = None \<or> (\<exists>k. n = Some k \<and> 0 < k \<and> k \<le> bufferLength s)"
  shows "bufferLength_ok (snd (READ E n s))"
proof -
  obtain c where b: "buffer s = [c] \<or> (objectMode s \<and> (\<exists>cs. buffer s = c # cs))"
    using ne one by (cases "buffer s"; cases "objectMode s") auto
  define r where "r =
        (if objectMode s then
           (Ret (case buffer s of [] \<Rightarrow> Undefined | c # cs \<Rightarrow> c), snd (BUFFERSHIFT s))
         else
           (case buffer s of
              [] \<Rightarrow> (Threw TypeError, s)
            | c # cs \<Rightarrow>
                if n = Some (vlen c) \<or> n = None then (Ret c, snd (BUFFERSHIFT s))
                else
                  (case c of
                     Str x \<Rightarrow>
                       (let k = split_at (the n) x
                        in (Ret (Str (take k x)),
                            s\<lparr>buffer := Str (drop k x) # cs,
                              bufferLength := bufferLength s - the n\<rparr>))
                   | Buf b \<Rightarrow>
                       (let k = split_at (the n) b
                        in (Ret (Buf (take k b)),
                            s\<lparr>buffer := Buf (drop k b) # cs,
                              bufferLength := bufferLength s - the n\<rparr>))
                   | _ \<Rightarrow> (Threw TypeError, s))))"
  have sh: "bufferLength_ok (snd (BUFFERSHIFT s))" by (rule ok_BUFFERSHIFT [OF ok ne])
  have okr: "bufferLength_ok (snd r)"
  proof (cases "objectMode s")
    case True
    then show ?thesis using sh by (simp add: r_def)
  next
    case False
    then have bc: "buffer s = [c]" using b by simp
    have bl: "bufferLength s = vlen c" using ok False bc by (simp add: bufferLength_ok_def)
    show ?thesis
    proof (cases "n = Some (vlen c) \<or> n = None")
      case True
      then show ?thesis using False bc sh by (auto simp: r_def)
    next
      case nn: False
      then obtain k where k: "n = Some k" "0 < k" "k \<le> vlen c" using n bl by auto
      show ?thesis
      proof (cases c)
        case (Str x)
        then show ?thesis using False bc nn k ok
          by (simp add: r_def Let_def split_at_def bufferLength_ok_def)
      next
        case (Buf x)
        then show ?thesis using False bc nn k ok
          by (simp add: r_def Let_def split_at_def bufferLength_ok_def)
      qed (use False bc nn k ok in \<open>auto simp: r_def\<close>)
    qed
  qed
  have "READ E n s =
      (let r' = r in case r' of
           (Threw e, s1) \<Rightarrow> (Threw e, s1)
         | (Ret chunk, s1) \<Rightarrow>
             (let s2 = emit_drop E Ev_data chunk s1;
                  s3 = (if buffer s2 = [] \<and> \<not> eof s2
                        then emit_drop E Ev_drain Undefined s2 else s2)
              in (Ret chunk, s3)))"
    unfolding READ_def r_def [symmetric] by (rule refl)
  then show ?thesis using okr
    by (cases r; cases "fst r") (auto simp: Let_def)
qed

lemma ok_read:
  assumes ok: "bufferLength_ok s" and n: "n = None \<or> (\<exists>k. n = Some k \<and> 0 \<le> k)"
  shows "bufferLength_ok (snd (read E n s))"
proof (cases "destroyed s")
  case True
  then show ?thesis using ok by (simp add: read_def)
next
  case False
  let ?s1 = "s\<lparr>discarded := False\<rparr>"
  have ok1: "bufferLength_ok ?s1" using ok by (simp add: bufferLength_ok_def)
  show ?thesis
  proof (cases "bufferLength ?s1 = 0 \<or> n = Some 0 \<or>
               (case n of None \<Rightarrow> False | Some k \<Rightarrow> k \<noteq> 0 \<and> k > bufferLength ?s1)")
    case True
    then have "read E n s = (Ret Null, MAYBE_EMIT_END E ?s1)"
      using False unfolding read_def Let_def by simp
    then show ?thesis using ok1 by simp
  next
    case g: False
    let ?n1 = "if objectMode ?s1 then None else n"
    obtain r s2 where co: "coalesce ?s1 = (r, s2)" by (cases "coalesce ?s1")
    have ne1: "buffer ?s1 \<noteq> []" using ok_nonempty [OF ok1] g by simp
    have ok2: "bufferLength_ok s2" using ok_coalesce(1) [OF ok1] co by simp
    have ne2: "buffer s2 \<noteq> []" using ok_coalesce(3) [OF ok1 ne1] co by simp
    have rd: "read E n s =
        (case coalesce ?s1 of
           (Threw e, s2) \<Rightarrow> (Threw e, s2)
         | (Ret u, s2) \<Rightarrow>
             (case READ E ?n1 s2 of
                (Threw e, s3) \<Rightarrow> (Threw e, s3)
              | (Ret chunk, s3) \<Rightarrow> (Ret chunk, MAYBE_EMIT_END E s3)))"
      using False g unfolding read_def Let_def by simp
    show ?thesis
    proof (cases r)
      case (Threw e)
      then show ?thesis unfolding rd co using ok2 by simp
    next
      case (Ret u)
      have one: "\<not> objectMode s2 \<Longrightarrow> length (buffer s2) \<le> 1"
        using ok_coalesce(2) [OF ok1] co Ret by simp
      have om: "objectMode s2 = objectMode s"
        using ok_coalesce(4) [OF ok1] co by (simp add: stable_def)
      have bl: "bufferLength s2 = bufferLength s"
        using co by (auto simp: coalesce_def split: option.splits if_splits)
      have nn: "?n1 = None \<or> (\<exists>k. ?n1 = Some k \<and> 0 < k \<and> k \<le> bufferLength s2)"
        using n g bl by (cases n) auto
      have ok3: "bufferLength_ok (snd (READ E ?n1 s2))" by (rule ok_READ [OF ok2 ne2 one nn])
      obtain r3 s3 where re: "READ E ?n1 s2 = (r3, s3)" by (cases "READ E ?n1 s2")
      show ?thesis unfolding rd co using Ret re ok3 by (cases r3) simp_all
    qed
  qed
qed

text \<open>Listeners, end, pause, resume, destroy, pipes, deferred calls and construction.\<close>

lemma ok_fire [simp]: "bufferLength_ok s \<Longrightarrow> bufferLength_ok (fire ev a s l)"
  by (rule ok_frame [OF frame_fire])

lemma ok_on:
  assumes "bufferLength_ok s"
  shows "bufferLength_ok (snd (on E ev l s))"
proof -
  let ?s1 = "super_on ev l s"
  have a: "bufferLength_ok ?s1" using assms by (simp add: bufferLength_ok_def super_on_def)
  let ?s2 = "?s1\<lparr>discarded := False, dataListeners := dataListeners ?s1 + 1\<rparr>"
  have b: "bufferLength_ok ?s2" using assms by (simp add: bufferLength_ok_def super_on_def)
  have c: "bufferLength_ok (snd (RESUME E ?s2))" by (rule ok_RESUME [OF b])
  have d: "bufferLength_ok (snd (deliver e x ?s1))" for e x
    by (rule ok_frame [OF frame_deliver a])
  have e: "bufferLength_ok (removeAllListeners (Some ev) (snd (deliver ev Undefined ?s1)))"
    by (rule ok_frame [OF frame_removeAllListeners d])
  have f: "bufferLength_ok (defer_task (T_errorHandler l) ?s1)"
    by (rule ok_frame [OF frame_defer_task a])
  have g: "bufferLength_ok (fire Ev_error (emittedError ?s1) ?s1 l)"
    using a by simp
  consider (dat) "ev = Ev_data"
    | (rd) "ev \<noteq> Ev_data" "ev = Ev_readable \<and> bufferLength ?s1 \<noteq> 0"
    | (en) "ev \<noteq> Ev_data" "\<not> (ev = Ev_readable \<and> bufferLength ?s1 \<noteq> 0)"
           "isEndish ev \<and> emittedEnd ?s1"
    | (er) "ev \<noteq> Ev_data" "\<not> (ev = Ev_readable \<and> bufferLength ?s1 \<noteq> 0)"
           "\<not> (isEndish ev \<and> emittedEnd ?s1)" "ev = Ev_error \<and> truthy (emittedError ?s1)"
    | (no) "ev \<noteq> Ev_data" "\<not> (ev = Ev_readable \<and> bufferLength ?s1 \<noteq> 0)"
           "\<not> (isEndish ev \<and> emittedEnd ?s1)" "\<not> (ev = Ev_error \<and> truthy (emittedError ?s1))"
    by blast
  then show ?thesis
  proof cases
    case dat
    have "snd (on E ev l s) = (if pipes ?s2 = [] \<and> \<not> flowing ?s2 then snd (RESUME E ?s2) else ?s2)"
      using dat by (simp add: on_def Let_def)
    then show ?thesis using b c by simp
  next
    case rd
    then have "snd (on E ev l s) = snd (deliver Ev_readable Undefined ?s1)"
      by (auto simp: on_def Let_def)
    then show ?thesis using d by simp
  next
    case en
    then have "snd (on E ev l s) = removeAllListeners (Some ev) (snd (deliver ev Undefined ?s1))"
      by (auto simp: on_def Let_def)
    then show ?thesis using e by simp
  next
    case er
    then have "snd (on E ev l s) = (if async ?s1 then defer_task (T_errorHandler l) ?s1
            else fire Ev_error (emittedError ?s1) ?s1 l)"
      by (auto simp: on_def Let_def)
    then show ?thesis using f g by simp
  next
    case no
    then have "snd (on E ev l s) = ?s1" by (auto simp: on_def Let_def)
    then show ?thesis using a by simp
  qed
qed

lemma ok_end_stream:
  assumes "bufferLength_ok s"
  shows "bufferLength_ok (snd (end_stream E chunk enc cb s))"
proof -
  define w where "w = (if chunk \<noteq> Undefined then write_mp E chunk enc None s else (Ret False, s))"
  obtain r s1 where w1: "w = (r, s1)" by (cases w)
  have ok1: "bufferLength_ok s1"
    using ok_write_mp [OF assms, of E chunk enc None] assms w1 by (auto simp: w_def split: if_splits)
  define reg where "reg = (case cb of None \<Rightarrow> (Ret (), s1) | Some h \<Rightarrow> on E Ev_end (OnceHandler h) s1)"
  obtain r2 s2 where o1: "reg = (r2, s2)" by (cases reg)
  have ok2: "bufferLength_ok s2"
  proof (cases cb)
    case None
    then show ?thesis using ok1 o1 by (simp add: reg_def)
  next
    case (Some h)
    then have "s2 = snd (on E Ev_end (OnceHandler h) s1)" using o1 by (simp add: reg_def)
    then show ?thesis using ok_on [OF ok1, of E Ev_end "OnceHandler h"] by simp
  qed
  let ?s3 = "s2\<lparr>eof := True, writable := False\<rparr>"
  have ok3: "bufferLength_ok ?s3" using ok2 by (simp add: bufferLength_ok_def)
  have ok4: "bufferLength_ok (MAYBE_EMIT_END E ?s3)" using ok3 by (rule ok_MAYBE_EMIT_END)
  have "end_stream E chunk enc cb s =
      (case w of
        (Threw e, s1) \<Rightarrow> (Threw e, s1)
      | (Ret r, s1) \<Rightarrow>
          (case (case cb of None \<Rightarrow> (Ret (), s1) | Some h \<Rightarrow> on E Ev_end (OnceHandler h) s1) of
             (Threw e, s2) \<Rightarrow> (Threw e, s2)
           | (Ret u, s2) \<Rightarrow>
               (let s3 = s2\<lparr>eof := True, writable := False\<rparr>
                in (Ret (), if flowing s3 \<or> \<not> paused s3 then MAYBE_EMIT_END E s3 else s3))))"
    unfolding end_stream_def w_def by (rule refl)
  then have "end_stream E chunk enc cb s =
      (case r of Threw e \<Rightarrow> (Threw e, s1)
       | Ret x \<Rightarrow> (case r2 of Threw e \<Rightarrow> (Threw e, s2)
            | Ret u \<Rightarrow> (Ret (), if flowing ?s3 \<or> \<not> paused ?s3 then MAYBE_EMIT_END E ?s3 else ?s3)))"
    unfolding w1 using o1 by (cases r; cases r2) (simp_all add: reg_def Let_def)
  then show ?thesis using ok1 ok2 ok3 ok4 by (cases r; cases r2) simp_all
qed

lemma ok_pause: "bufferLength_ok s \<Longrightarrow> bufferLength_ok (pause s)"
  by (simp add: pause_def bufferLength_ok_def)

lemma ok_resume: "bufferLength_ok s \<Longrightarrow> bufferLength_ok (snd (resume E s))"
  unfolding resume_def by (rule ok_RESUME)

lemma ok_emit_destroyed:
  assumes "bufferLength_ok s"
  shows "bufferLength_ok (snd (emit_destroyed E er s))"
proof -
  obtain r s1 where em: "emit E Ev_error er s = (r, s1)" by (cases "emit E Ev_error er s")
  have "bufferLength_ok s1" using ok_emit [OF assms, of E Ev_error er] em by simp
  then show ?thesis using em assms by (cases r) (simp_all add: emit_destroyed_def)
qed

lemma ok_destroy: "bufferLength_ok (snd (destroy E er s))" if "bufferLength_ok s"
proof -
  let ?s1 = "s\<lparr>destroyed := True, discarded := True, buffer := [], bufferLength := 0\<rparr>"
  let ?s2 = "if hasClose ?s1 \<and> \<not> closed ?s1 then record_obs [CloseHook] ?s1 else ?s1"
  have "bufferLength_ok ?s2" by (simp add: bufferLength_ok_def record_obs_def)
  then have "bufferLength_ok (snd (emit_destroyed E er ?s2))" by (rule ok_emit_destroyed)
  then show ?thesis using ok_emit_destroyed [OF that, of E er]
    by (simp add: destroy_def Let_def)
qed


lemma ok_pipe:
  assumes "bufferLength_ok s"
  shows "bufferLength_ok (snd (pipe E d opts s))"
proof (cases "destroyed s")
  case True
  then show ?thesis using assms by (simp add: pipe_def)
next
  case False
  define s1 where "s1 = s\<lparr>discarded := False\<rparr>"
  define e where "e = (if Some d = proc_stdout E \<or> Some d = proc_stderr E then False
                  else opt_end opts \<noteq> Some False)"
  define pe where "pe = (opt_proxyErrors opts = Some True)"
  define reg where "reg = (if pe then on E Ev_error (ProxyErrors d) s1 else (Ret (), s1))"
  obtain r s2 where rg: "reg = (r, s2)" by (cases reg)
  define s3 where "s3 = s2\<lparr>pipes := pipes s2 @ [\<lparr>dest = d, opts_end = e, opts_proxyErrors = pe\<rparr>]\<rparr>"
  have ok1: "bufferLength_ok s1" using assms by (simp add: s1_def bufferLength_ok_def)
  have ok1': "bufferLength_ok (record_obs [DestEnd d] s1)"
    by (rule ok_frame [OF frame_record_obs ok1])
  have ok2: "bufferLength_ok s2"
  proof (cases pe)
    case True
    then have "s2 = snd (on E Ev_error (ProxyErrors d) s1)" using rg by (simp add: reg_def)
    then show ?thesis using ok_on [OF ok1, of E Ev_error "ProxyErrors d"] by simp
  next
    case False
    then show ?thesis using rg ok1 by (simp add: reg_def)
  qed
  have ok3: "bufferLength_ok s3" using ok2 by (simp add: s3_def bufferLength_ok_def)
  have ok4: "bufferLength_ok (defer_task T_RESUME s3)"
    by (rule ok_frame [OF frame_defer_task ok3])
  have ok5: "bufferLength_ok (snd (RESUME E s3))" by (rule ok_RESUME [OF ok3])
  have "pipe E d opts s =
      (if emittedEnd s1 then (Ret (), if e then record_obs [DestEnd d] s1 else s1)
       else (case reg of
                 (Threw x, s2) \<Rightarrow> (Threw x, s2)
               | (Ret u, s2) \<Rightarrow>
                   (let s3 = s2\<lparr>pipes := pipes s2 @
                                  [\<lparr>dest = d, opts_end = e, opts_proxyErrors = pe\<rparr>]\<rparr>
                    in if async s3 then (Ret (), defer_task T_RESUME s3) else RESUME E s3)))"
    using False unfolding pipe_def Let_def s1_def e_def pe_def reg_def by simp
  then have "pipe E d opts s =
      (if emittedEnd s1 then (Ret (), if e then record_obs [DestEnd d] s1 else s1)
       else (case r of Threw x \<Rightarrow> (Threw x, s2)
             | Ret u \<Rightarrow> if async s3 then (Ret (), defer_task T_RESUME s3) else RESUME E s3))"
    unfolding rg s3_def by (cases r) (simp_all add: Let_def)
  then show ?thesis using ok1 ok1' ok2 ok4 ok5 by (cases r) simp_all
qed

lemma ok_tick:
  assumes "bufferLength_ok s"
  shows "bufferLength_ok (snd (tick E s))"
proof (cases "deferred s")
  case Nil
  then show ?thesis using assms by (simp add: tick_def)
next
  case (Cons t ts)
  let ?s1 = "s\<lparr>deferred := ts\<rparr>"
  have ok1: "bufferLength_ok ?s1" using assms by (simp add: bufferLength_ok_def)
  show ?thesis
  proof (cases t)
    case (T_EMITDATA v)
    then show ?thesis using Cons ok_frame [OF frame_EMITDATA ok1] by (simp add: tick_def)
  next
    case T_EMITEND2
    then show ?thesis using Cons ok_frame [OF frame_EMITEND2 ok1] by (simp add: tick_def)
  next
    case T_RESUME
    then show ?thesis using Cons ok_RESUME [OF ok1] by (simp add: tick_def)
  next
    case (T_cb h)
    then show ?thesis using Cons ok_frame [OF frame_record_obs ok1] by (simp add: tick_def)
  next
    case (T_errorHandler l)
    then show ?thesis using Cons ok_fire [OF ok1] by (simp add: tick_def)
  qed
qed

lemma ok_fresh: "bufferLength_ok fresh"
  by (simp add: bufferLength_ok_def fresh_def)

lemma ok_ABORT:
  assumes "bufferLength_ok s"
  shows "bufferLength_ok (snd (ABORT E s))"
proof -
  have "bufferLength_ok (s\<lparr>aborted := True\<rparr>)" using assms by (simp add: bufferLength_ok_def)
  then have "bufferLength_ok (emit_drop E Ev_abort a (s\<lparr>aborted := True\<rparr>))" for a by simp
  then show ?thesis unfolding ABORT_def Let_def by (rule ok_destroy)
qed

lemma ok_new_Minipass: "new_Minipass E opts = Ret s \<Longrightarrow> bufferLength_ok s"
proof -
  assume a: "new_Minipass E opts = Ret s"
  define enc where "enc = (if options_objectMode opts then None
                    else (case options_encoding opts of
                            None \<Rightarrow> None
                          | Some e \<Rightarrow> if e \<noteq> [] \<and> e \<noteq> ''buffer'' then Some e else None))"
  define s1 where "s1 = fresh\<lparr>objectMode := options_objectMode opts, encoding := enc,
                        async := truthy (options_async opts),
                        decoder := (case enc of None \<Rightarrow> None | Some e \<Rightarrow> Some (e, []))\<rparr>"
  have ok1: "bufferLength_ok s1" by (simp add: s1_def bufferLength_ok_def fresh_def)
  have ok2: "bufferLength_ok (s1\<lparr>signal := Some r\<rparr>)" for r
    using ok1 by (simp add: bufferLength_ok_def)
  have ok3: "bufferLength_ok (snd (ABORT E (s1\<lparr>signal := Some r\<rparr>)))" for r
    by (rule ok_ABORT [OF ok2])
  have b: "new_Minipass E opts =
     (if options_objectMode opts \<and> options_encoding opts \<noteq> None then Threw EncodingAndObjectMode
      else
        (case options_signal opts of
              None \<Rightarrow> Ret s1
            | Some (ab, reason) \<Rightarrow>
                (let s2 = s1\<lparr>signal := Some reason\<rparr>
                 in if ab then
                      (case ABORT E s2 of (Threw e, s3) \<Rightarrow> Threw e | (Ret u, s3) \<Rightarrow> Ret s3)
                    else Ret s2)))"
    unfolding new_Minipass_def Let_def s1_def enc_def by (rule refl)
  show ?thesis
  proof (cases "options_signal opts")
    case None
    then show ?thesis using a b ok1 by (auto split: if_splits)
  next
    case (Some p)
    obtain ab reason where p: "p = (ab, reason)" by (cases p)
    obtain r3 s3 where ab3: "ABORT E (s1\<lparr>signal := Some reason\<rparr>) = (r3, s3)"
      by (cases "ABORT E (s1\<lparr>signal := Some reason\<rparr>)")
    have "bufferLength_ok s3" using ok3 [of reason] ab3 by simp
    then show ?thesis using a b Some p ab3 ok2 [of reason]
      by (cases r3) (auto split: if_splits simp: Let_def)
  qed
qed

text \<open>
  The public operations, as data, and the state each leaves behind (also when it throws).
\<close>

datatype operation =
    Op_write val "string option" "hid option"
  | Op_read "int option"
  | Op_end val "string option" "hid option"
  | Op_resume
  | Op_pause
  | Op_destroy val
  | Op_on event listener
  | Op_pipe did PipeOptions
  | Op_tick

fun perform :: "env \<Rightarrow> minipass \<Rightarrow> operation \<Rightarrow> minipass" where
  "perform E s (Op_write chunk enc cb) = snd (write_mp E chunk enc cb s)"
| "perform E s (Op_read n) = snd (read E n s)"
| "perform E s (Op_end chunk enc cb) = snd (end_stream E chunk enc cb s)"
| "perform E s Op_resume = snd (resume E s)"
| "perform E s Op_pause = pause s"
| "perform E s (Op_destroy er) = snd (destroy E er s)"
| "perform E s (Op_on ev l) = snd (on E ev l s)"
| "perform E s (Op_pipe d opts) = snd (pipe E d opts s)"
| "perform E s Op_tick = snd (tick E s)"

fun read_in_range :: "operation \<Rightarrow> bool" where
  "read_in_range (Op_read (Some k)) = (0 \<le> k)"
| "read_in_range op = True"

lemma ok_perform:
  "bufferLength_ok s \<Longrightarrow> read_in_range op \<Longrightarrow> bufferLength_ok (perform E s op)"
proof (cases op)
  case (Op_read n)
  assume "bufferLength_ok s" "read_in_range op"
  then show ?thesis using Op_read ok_read [of s n E] by (cases n) auto
qed (simp_all add: ok_write_mp ok_end_stream ok_resume ok_pause ok_destroy ok_on ok_pipe ok_tick)

lemma bufferLength_ok_operations:
  "bufferLength_ok s \<Longrightarrow> list_all read_in_range ops \<Longrightarrow>
   bufferLength_ok (foldl (perform E) s ops)"
  by (induction ops arbitrary: s) (simp_all add: ok_perform)

section \<open>Writes reach the consumers\<close>

text \<open>
  A flowing stream with nothing buffered: not destroyed, aborted or ended, not discarding,
  every data listener registered with \<^verbatim>\<open>on\<close>, and every piped destination accepting every
  write (its \<^verbatim>\<open>write\<close> never returns false, so no backpressure pauses the stream).
\<close>

definition accepting :: "env \<Rightarrow> minipass \<Rightarrow> bool" where
  "accepting E s = (\<forall>p\<in>set (pipes s). \<forall>h v. dest_write E (dest p) h v)"

definition streaming :: "env \<Rightarrow> minipass \<Rightarrow> bool" where
  "streaming E s =
     (\<not> destroyed s \<and> \<not> aborted s \<and> \<not> eof s \<and> \<not> emittedEnd s \<and> \<not> emittingEnd s \<and>
      flowing s \<and> \<not> discarded s \<and> buffer s = [] \<and> bufferLength s = 0 \<and>
      (\<forall>l\<in>set (listeners s Ev_data). \<not> isOnce l) \<and> accepting E s)"

text \<open>What one emission of a chunk records when nothing holds it back.\<close>

definition flow_out :: "val \<Rightarrow> minipass \<Rightarrow> obs list" where
  "flow_out v s = pipe_writes v (pipes s) @ calls Ev_data v s"

lemma foldl_pipe_write_accept:
  "\<forall>p\<in>set ps. \<forall>h v. dest_write E (dest p) h v \<Longrightarrow>
   foldl (pipe_write E v) s ps = record_obs (pipe_writes v ps) s"
proof (induction ps arbitrary: s)
  case Nil
  show ?case by (simp add: record_obs_def pipe_writes_def)
next
  case (Cons p ps)
  then have "pipe_write E v s p = record_obs [DestWrite (dest p) v] s"
    by (simp add: pipe_write_def Let_def)
  then show ?case using Cons by (simp add: record_obs_def pipe_writes_def)
qed

lemma EMITDATA_flow:
  assumes "\<not> discarded s" and "accepting E s"
    and "\<forall>l\<in>set (listeners s Ev_data). \<not> isOnce l"
    and "\<not> endCondition s"
  shows "snd (EMITDATA E v s) = record_obs (flow_out v s) s"
proof -
  let ?s1 = "record_obs (pipe_writes v (pipes s)) s"
  have f: "foldl (pipe_write E v) s (pipes s) = ?s1"
    using assms(2) by (simp add: foldl_pipe_write_accept accepting_def)
  have l: "listeners ?s1 = listeners s" "discarded ?s1 = discarded s"
    by (simp_all add: record_obs_def)
  have d: "deliver Ev_data v ?s1 =
      (listeners s Ev_data \<noteq> [], record_obs (calls Ev_data v s) ?s1)"
    using assms(3) by (simp add: deliver_plain l calls_def)
  have e: "\<not> endCondition (record_obs (flow_out v s) s)"
    using assms(4) by (simp add: endCondition_def record_obs_def)
  have "snd (EMITDATA E v s) = MAYBE_EMIT_END E (record_obs (calls Ev_data v s) ?s1)"
    using assms(1) by (simp add: EMITDATA_def f l d Let_def)
  moreover have "record_obs (calls Ev_data v s) ?s1 = record_obs (flow_out v s) s"
    by (simp add: record_obs_def flow_out_def)
  ultimately show ?thesis using e by (simp add: MAYBE_EMIT_END_idle)
qed

lemma emit_data_sync:
  assumes "\<not> destroyed s" and "\<not> async s" and "objectMode s \<or> truthy v"
    and "\<not> discarded s" and "accepting E s"
    and "\<forall>l\<in>set (listeners s Ev_data). \<not> isOnce l" and "\<not> endCondition s"
  shows "emit_drop E Ev_data v s = record_obs (flow_out v s) s"
proof -
  have "emit_drop E Ev_data v s = snd (EMITDATA E v s)"
    using assms(1-3) by (auto simp: emit_drop_def emit_def split_beta)
  then show ?thesis using EMITDATA_flow [OF assms(4-7)] by simp
qed

lemma emit_data_async:
  assumes "\<not> destroyed s" and "async s" and "objectMode s \<or> truthy v"
  shows "emit_drop E Ev_data v s = defer_task (T_EMITDATA v) s"
  using assms by (auto simp: emit_drop_def emit_def)

lemma emit_data_dropped:
  assumes "\<not> objectMode s" and "\<not> truthy v"
  shows "emit_drop E Ev_data v s = s"
  using assms by (simp add: emit_drop_def emit_def)

text \<open>
  The state after a step that only extends the trace and the deferred work and moves the
  decoder on.
\<close>

definition advance :: "(string \<times> sd) option \<Rightarrow> obs list \<Rightarrow> task list \<Rightarrow> minipass \<Rightarrow> minipass" where
  "advance dec os ts s = s\<lparr>decoder := dec, trace := trace s @ os, deferred := deferred s @ ts\<rparr>"

lemma advance_advance [simp]:
  "advance d2 os2 ts2 (advance d1 os1 ts1 s) = advance d2 (os1 @ os2) (ts1 @ ts2) s"
  by (simp add: advance_def)

lemma advance_fields [simp]:
  "pipes (advance d os ts s) = pipes s"
  "listeners (advance d os ts s) = listeners s"
  "objectMode (advance d os ts s) = objectMode s"
  "encoding (advance d os ts s) = encoding s"
  "async (advance d os ts s) = async s"
  "decoder (advance d os ts s) = d"
  "trace (advance d os ts s) = trace s @ os"
  "deferred (advance d os ts s) = deferred s @ ts"
  "flowing (advance d os ts s) = flowing s"
  "paused (advance d os ts s) = paused s"
  "closed (advance d os ts s) = closed s"
  "eof (advance d os ts s) = eof s"
  "discarded (advance d os ts s) = discarded s"
  by (simp_all add: advance_def)

lemma streaming_advance [simp]: "streaming E (advance d os ts s) = streaming E s"
  by (simp add: streaming_def advance_def accepting_def)

lemma flow_out_advance [simp]: "flow_out v (advance d os ts s) = flow_out v s"
  by (simp add: flow_out_def advance_def calls_def)

definition cb_obs :: "hid option \<Rightarrow> obs list" where
  "cb_obs cb = (case cb of None \<Rightarrow> [] | Some h \<Rightarrow> [Callback h])"

definition cb_tasks :: "hid option \<Rightarrow> task list" where
  "cb_tasks cb = (case cb of None \<Rightarrow> [] | Some h \<Rightarrow> [T_cb h])"

text \<open>
  What a write in a streaming state emits: the values handed to \<^verbatim>\<open>emit('data', _)\<close> that
  are not dropped there.
\<close>

definition passes :: "minipass \<Rightarrow> val \<Rightarrow> val list" where
  "passes s v = (if objectMode s \<or> truthy v then [v] else [])"

lemma write_tail_streaming:
  assumes "streaming E s"
  shows "write_tail E v cb s =
     (Ret True,
      advance (decoder s)
        (if async s then [] else concat (map (\<lambda>x. flow_out x s) (passes s v)) @ cb_obs cb)
        (if async s then map T_EMITDATA (passes s v) @ cb_tasks cb else []) s)"
proof -
  have st: "\<not> destroyed s" "flowing s" "bufferLength s = 0" "\<not> discarded s" "accepting E s"
    "\<forall>l\<in>set (listeners s Ev_data). \<not> isOnce l" "\<not> endCondition s"
    using assms by (simp_all add: streaming_def endCondition_def)
  let ?s2 = "emit_drop E Ev_data v s"
  have s2: "?s2 = advance (decoder s)
        (if async s then [] else concat (map (\<lambda>x. flow_out x s) (passes s v)))
        (if async s then map T_EMITDATA (passes s v) else []) s"
  proof (cases "objectMode s \<or> truthy v")
    case False
    then show ?thesis by (simp add: emit_data_dropped passes_def advance_def)
  next
    case True
    show ?thesis
    proof (cases "async s")
      case True
      then show ?thesis using \<open>objectMode s \<or> truthy v\<close> st(1)
        by (simp add: emit_data_async passes_def advance_def defer_task_def)
    next
      case False
      then show ?thesis using \<open>objectMode s \<or> truthy v\<close> st
        by (simp add: emit_data_sync passes_def advance_def record_obs_def)
    qed
  qed
  have b2: "bufferLength ?s2 = 0" "flowing ?s2" "async ?s2 = async s"
    using st by (simp_all add: s2 advance_def)
  have cb: "call_cb cb ?s2 = advance (decoder s)
        (if async s then [] else concat (map (\<lambda>x. flow_out x s) (passes s v)) @ cb_obs cb)
        (if async s then map T_EMITDATA (passes s v) @ cb_tasks cb else []) s"
    by (cases cb)
      (simp_all add: call_cb_def b2 s2 cb_obs_def cb_tasks_def advance_def defer_task_def
        record_obs_def)
  have "write_tail E v cb s = (Ret (flowing (call_cb cb ?s2)), call_cb cb ?s2)"
    using st b2 by (simp add: write_tail_def Let_def)
  then show ?thesis using st(2) by (simp add: cb advance_def)
qed

text \<open>
  The chunk that a write hands to \<^verbatim>\<open>emit('data', _)\<close> or to the buffer, if any, and the
  decoder afterwards.
\<close>

definition normalized :: "env \<Rightarrow> minipass \<Rightarrow> val \<Rightarrow> string option \<Rightarrow> val list \<times> (string \<times> sd) option" where
  "normalized E s c ea =
     (if objectMode s then ([c], decoder s)
      else
        (case contiguous c of
           None \<Rightarrow> ([], decoder s)
         | Some k \<Rightarrow>
             if vlen k = 0 then ([], decoder s)
             else
               (let c1 = (if isString k \<and>
                             \<not> (Some (enc_or_utf8 ea) = encoding s \<and> \<not> lastNeed E s)
                          then to_buffer E (enc_or_utf8 ea) k else k)
                in case decode_chunk E c1 s of
                     (Ret c2, s1) \<Rightarrow> ([c2], decoder s1)
                   | (Threw e, s1) \<Rightarrow> ([], decoder s1))))"

definition emits :: "env \<Rightarrow> minipass \<Rightarrow> val \<Rightarrow> string option \<Rightarrow> val list" where
  "emits E s c ea = concat (map (passes s) (fst (normalized E s c ea)))"

lemma decode_chunk_state:
  "fst (decode_chunk E c s) \<noteq> Threw TypeError \<Longrightarrow>
   snd (decode_chunk E c s) = advance (decoder (snd (decode_chunk E c s))) [] [] s"
  by (cases c) (auto simp: advance_def split: option.splits prod.splits)

lemma decode_chunk_ok:
  "encodingSet s \<longrightarrow> decoder s \<noteq> None \<Longrightarrow> \<exists>c2. fst (decode_chunk E c s) = Ret c2"
  by (cases c) (auto split: option.splits prod.splits)

lemma write_streaming:
  assumes st: "streaming E s"
    and ok: "objectMode s \<or> contiguous c \<noteq> None"
    and dec: "encodingSet s \<longrightarrow> decoder s \<noteq> None"
  shows "write_mp E c ea cb s =
     (Ret True,
      advance (snd (normalized E s c ea))
        (if async s then [] else concat (map (\<lambda>x. flow_out x s) (emits E s c ea)) @ cb_obs cb)
        (if async s then map T_EMITDATA (emits E s c ea) @ cb_tasks cb else []) s)"
proof -
  have basic: "\<not> aborted s" "\<not> eof s" "\<not> destroyed s" "bufferLength s = 0" "flowing s"
    using st by (simp_all add: streaming_def)
  show ?thesis
  proof (cases "objectMode s")
    case True
    then have "write_mp E c ea cb s = write_tail E c cb s"
      using basic by (simp add: write_mp_def)
    then show ?thesis using True
      by (simp add: write_tail_streaming [OF st] normalized_def emits_def)
  next
    case False
    then obtain k where k: "contiguous c = Some k" using ok by auto
    show ?thesis
    proof (cases "vlen k = 0")
      case True
      have "write_mp E c ea cb s = (Ret (flowing (call_cb cb s)), call_cb cb s)"
        using basic False k True by (simp add: write_mp_def Let_def)
      moreover have "call_cb cb s = advance (decoder s)
          (if async s then [] else cb_obs cb) (if async s then cb_tasks cb else []) s"
        by (cases cb)
          (simp_all add: call_cb_def advance_def cb_obs_def cb_tasks_def defer_task_def
            record_obs_def)
      ultimately show ?thesis using False k True basic
        by (simp add: normalized_def emits_def advance_def)
    next
      case nz: False
      define c1 where "c1 = (if isString k \<and>
                             \<not> (Some (enc_or_utf8 ea) = encoding s \<and> \<not> lastNeed E s)
                          then to_buffer E (enc_or_utf8 ea) k else k)"
      obtain c2 where c2: "fst (decode_chunk E c1 s) = Ret c2"
        using decode_chunk_ok [OF dec] by blast
      define s1 where "s1 = snd (decode_chunk E c1 s)"
      have dc: "decode_chunk E c1 s = (Ret c2, s1)"
        using c2 by (simp add: s1_def prod_eq_iff)
      have s1: "s1 = advance (decoder s1) [] [] s"
        using decode_chunk_state [of E c1 s] c2 by (simp add: s1_def)
      have st1: "streaming E s1" using st by (subst s1) simp
      have "write_mp E c ea cb s =
          (case decode_chunk E c1 s of
             (Threw e, s1) \<Rightarrow> (Threw e, s1)
           | (Ret c2, s1) \<Rightarrow> write_tail E c2 cb s1)"
        using basic False k nz unfolding write_mp_def Let_def c1_def by simp
      then have w: "write_mp E c ea cb s = write_tail E c2 cb s1"
        unfolding dc by simp
      have "normalized E s c ea =
          (case decode_chunk E c1 s of
             (Ret c2, s1) \<Rightarrow> ([c2], decoder s1)
           | (Threw e, s1) \<Rightarrow> ([], decoder s1))"
        using False k nz unfolding normalized_def Let_def c1_def by simp
      then have n: "normalized E s c ea = ([c2], decoder s1)"
        unfolding dc by simp
      have f: "flow_out x s1 = flow_out x s" for x by (subst s1) simp
      have p: "passes s1 = passes s" by (subst s1) (simp add: passes_def fun_eq_iff)
      have a: "async s1 = async s" by (subst s1) simp
      have "write_tail E c2 cb s1 =
        (Ret True,
         advance (decoder s1)
          (if async s then [] else concat (map (\<lambda>x. flow_out x s) (passes s c2)) @ cb_obs cb)
          (if async s then map T_EMITDATA (passes s c2) @ cb_tasks cb else []) s1)"
        by (simp add: write_tail_streaming [OF st1] f p a)
      moreover have "advance d os ts s1 = advance d os ts s" for d os ts
        by (subst s1) simp
      ultimately show ?thesis by (simp add: w n emits_def)
    qed
  qed
qed

text \<open>A sequence of calls of \<^verbatim>\<open>write\<close>, each with its chunk, encoding and callback.\<close>

type_synonym wcall = "val \<times> string option \<times> hid option"

fun writes :: "env \<Rightarrow> wcall list \<Rightarrow> minipass \<Rightarrow> unit outcome \<times> minipass" where
  "writes E [] s = (Ret (), s)"
| "writes E ((c, ea, cb) # ws) s =
     (case write_mp E c ea cb s of
        (Threw e, s1) \<Rightarrow> (Threw e, s1)
      | (Ret r, s1) \<Rightarrow> writes E ws s1)"

definition writes_then_end :: "env \<Rightarrow> wcall list \<Rightarrow> minipass \<Rightarrow> unit outcome \<times> minipass" where
  "writes_then_end E ws s =
     (case writes E ws s of
        (Threw e, s1) \<Rightarrow> (Threw e, s1)
      | (Ret u, s1) \<Rightarrow> end_stream E Undefined None None s1)"

text \<open>Running the deferred work: \<open>n\<close> turns of the queue.\<close>

fun ticks :: "env \<Rightarrow> nat \<Rightarrow> minipass \<Rightarrow> minipass" where
  "ticks E 0 s = s"
| "ticks E (Suc n) s = ticks E n (snd (tick E s))"

definition settle :: "env \<Rightarrow> minipass \<Rightarrow> minipass" where
  "settle E s = ticks E (length (deferred s)) s"

text \<open>
  A consumer is a data handler or a piped destination; what it got is the payloads of
  its calls, or of the writes to it, in the order of the trace.
\<close>

datatype consumer = Listener hid | Destination did

fun got1 :: "consumer \<Rightarrow> obs \<Rightarrow> val list" where
  "got1 (Listener h) (Call ev h' a) = (if ev = Ev_data \<and> h' = h then [a] else [])"
| "got1 (Destination d) (DestWrite d' a) = (if d' = d then [a] else [])"
| "got1 c x = []"

definition got :: "consumer \<Rightarrow> obs list \<Rightarrow> val list" where
  "got c tr = concat (map (got1 c) tr)"

fun attached :: "consumer \<Rightarrow> minipass \<Rightarrow> bool" where
  "attached (Listener h) s =
     (filter (\<lambda>l. handlerOf l = Some h) (listeners s Ev_data) = [Handler h])"
| "attached (Destination d) s = (length (filter (\<lambda>p. dest p = d) (pipes s)) = 1)"

lemma got_append [simp]: "got c (xs @ ys) = got c xs @ got c ys"
  by (simp add: got_def)

lemma got_Nil [simp]: "got c [] = []"
  by (simp add: got_def)

lemma got_pipe_writes_Listener [simp]: "got (Listener h) (pipe_writes v ps) = []"
  by (induction ps) (simp_all add: got_def pipe_writes_def)

lemma got_pipe_writes_Destination:
  "got (Destination d) (pipe_writes v ps) = map (\<lambda>p. v) (filter (\<lambda>p. dest p = d) ps)"
  by (induction ps) (simp_all add: got_def pipe_writes_def)

lemma got_pipe_ends [simp]: "got c (pipe_ends ps) = []"
  by (cases c; induction ps) (simp_all add: got_def pipe_ends_def)

lemma got_map_call_Destination [simp]:
  "got (Destination d) (map (call_listener ev a) ls) = []"
proof (induction ls)
  case (Cons l ls)
  then show ?case by (cases l) (simp_all add: got_def)
qed simp

lemma got_map_call_Listener:
  "got (Listener h) (map (call_listener ev a) ls) =
     (if ev = Ev_data then map (\<lambda>l. a) (filter (\<lambda>l. handlerOf l = Some h) ls) else [])"
proof (induction ls)
  case (Cons l ls)
  then show ?case by (cases l) (simp_all add: got_def)
qed simp

lemma got_calls_other [simp]: "ev \<noteq> Ev_data \<Longrightarrow> got c (calls ev a s) = []"
  by (cases c) (simp_all add: calls_def got_map_call_Listener)

lemma got_cb_obs [simp]: "got c (cb_obs cb) = []"
  by (cases c; cases cb) (simp_all add: cb_obs_def got_def)

lemma got_flow_out: "attached c s \<Longrightarrow> got c (flow_out v s) = [v]"
proof (cases c)
  case (Listener h)
  assume "attached c s"
  then show ?thesis using Listener
    by (simp add: flow_out_def calls_def got_map_call_Listener)
next
  case (Destination d)
  assume "attached c s"
  then have "length (map (\<lambda>p. v) (filter (\<lambda>p. dest p = d) (pipes s))) = 1"
    using Destination by simp
  then have "map (\<lambda>p. v) (filter (\<lambda>p. dest p = d) (pipes s)) = [v]"
    by (cases "filter (\<lambda>p. dest p = d) (pipes s)") auto
  then show ?thesis using Destination
    by (simp add: flow_out_def calls_def got_pipe_writes_Destination)
qed

lemma got_flow_outs:
  "attached c s \<Longrightarrow> got c (concat (map (\<lambda>x. flow_out x s) vs)) = vs"
  by (induction vs) (simp_all add: got_flow_out)

lemma attached_advance [simp]: "attached c (advance d os ts s) = attached c s"
  by (cases c) simp_all

text \<open>The chunks that a sequence of writes emits, and the decoder after them.\<close>

fun emitted :: "env \<Rightarrow> minipass \<Rightarrow> wcall list \<Rightarrow> val list \<times> (string \<times> sd) option" where
  "emitted E s [] = ([], decoder s)"
| "emitted E s ((c, ea, cb) # ws) =
     (let r = emitted E (advance (snd (normalized E s c ea)) [] [] s) ws
      in (emits E s c ea @ fst r, snd r))"

definition same_mode :: "minipass \<Rightarrow> minipass \<Rightarrow> bool" where
  "same_mode s t =
     (objectMode t = objectMode s \<and> encoding t = encoding s \<and> decoder t = decoder s)"

lemma decode_chunk_same_mode:
  "same_mode s t \<Longrightarrow>
   fst (decode_chunk E c t) = fst (decode_chunk E c s) \<and>
   decoder (snd (decode_chunk E c t)) = decoder (snd (decode_chunk E c s))"
  by (cases c) (auto simp: same_mode_def encodingSet_def split: option.splits prod.splits)

lemma normalized_same_mode:
  assumes "same_mode s t"
  shows "normalized E t c ea = normalized E s c ea"
proof -
  have l: "lastNeed E t = lastNeed E s" "objectMode t = objectMode s" "encoding t = encoding s"
    "decoder t = decoder s"
    using assms by (simp_all add: same_mode_def lastNeed_def)
  have d: "(case decode_chunk E x t of (Ret c2, s1) \<Rightarrow> ([c2], decoder s1)
                   | (Threw e, s1) \<Rightarrow> ([], decoder s1)) =
           (case decode_chunk E x s of (Ret c2, s1) \<Rightarrow> ([c2], decoder s1)
                   | (Threw e, s1) \<Rightarrow> ([], decoder s1))" for x
    using decode_chunk_same_mode [OF assms, of E x]
    by (cases "decode_chunk E x t"; cases "decode_chunk E x s") (auto split: outcome.splits)
  show ?thesis unfolding normalized_def l Let_def d by (rule refl)
qed

lemma emits_same_mode:
  assumes "same_mode s t"
  shows "emits E t c ea = emits E s c ea"
proof -
  have "passes t = passes s" using assms by (simp add: passes_def same_mode_def fun_eq_iff)
  then show ?thesis by (simp add: emits_def normalized_same_mode [OF assms])
qed

lemma emitted_same_mode: "same_mode s t \<Longrightarrow> emitted E t ws = emitted E s ws"
proof (induction ws arbitrary: s t)
  case Nil
  then show ?case by (simp add: same_mode_def)
next
  case (Cons w ws)
  obtain c ea cb where w: "w = (c, ea, cb)" by (cases w)
  have n: "normalized E t c ea = normalized E s c ea"
    by (rule normalized_same_mode [OF Cons.prems])
  have "same_mode (advance (snd (normalized E s c ea)) [] [] s)
                  (advance (snd (normalized E s c ea)) [] [] t)"
    using Cons.prems by (simp add: same_mode_def)
  then have "emitted E (advance (snd (normalized E s c ea)) [] [] t) ws =
             emitted E (advance (snd (normalized E s c ea)) [] [] s) ws"
    by (rule Cons.IH)
  then show ?case using w n emits_same_mode [OF Cons.prems] by (simp add: Let_def)
qed

lemma emitted_advance:
  "emitted E (advance d os ts s) ws = emitted E (advance d [] [] s) ws"
  by (rule emitted_same_mode) (simp add: same_mode_def)

fun data_tasks :: "task list \<Rightarrow> val list" where
  "data_tasks [] = []"
| "data_tasks (T_EMITDATA v # ts) = v # data_tasks ts"
| "data_tasks (t # ts) = data_tasks ts"

fun plain_task :: "task \<Rightarrow> bool" where
  "plain_task (T_EMITDATA v) = True"
| "plain_task (T_cb h) = True"
| "plain_task t = False"

lemma data_tasks_append [simp]: "data_tasks (xs @ ys) = data_tasks xs @ data_tasks ys"
  by (induction xs rule: data_tasks.induct) simp_all

lemma data_tasks_map [simp]: "data_tasks (map T_EMITDATA vs) = vs"
  by (induction vs) simp_all

lemma data_tasks_cb [simp]: "data_tasks (cb_tasks cb) = []"
  by (cases cb) (simp_all add: cb_tasks_def)

lemma plain_cb_tasks [simp]: "list_all plain_task (cb_tasks cb)"
  by (cases cb) (simp_all add: cb_tasks_def)

lemma plain_map_data [simp]: "list_all plain_task (map T_EMITDATA vs)"
  by (induction vs) simp_all

text \<open>
  The decoder is there when the stream has an encoding, and stays.
\<close>

definition decoder_ready :: "minipass \<Rightarrow> bool" where
  "decoder_ready s = (encodingSet s \<longrightarrow> decoder s \<noteq> None)"

lemma decoder_decode_chunk:
  "decoder s = Some (enc, d) \<Longrightarrow> decoder (snd (decode_chunk E x s)) \<noteq> None"
  by (cases x) (simp_all add: split_beta)

lemma snd_normalized:
  "snd (normalized E s c ea) = decoder s \<or>
   (\<exists>x. snd (normalized E s c ea) = decoder (snd (decode_chunk E x s)))"
proof (cases "objectMode s")
  case True
  then show ?thesis by (simp add: normalized_def)
next
  case om: False
  show ?thesis
  proof (cases "contiguous c")
    case None
    then show ?thesis using om by (simp add: normalized_def)
  next
    case (Some k)
    show ?thesis
    proof (cases "vlen k = 0")
      case True
      then show ?thesis using om Some by (simp add: normalized_def)
    next
      case False
      define c1 where "c1 = (if isString k \<and>
                             \<not> (Some (enc_or_utf8 ea) = encoding s \<and> \<not> lastNeed E s)
                          then to_buffer E (enc_or_utf8 ea) k else k)"
      have n: "normalized E s c ea =
          (case decode_chunk E c1 s of
             (Ret c2, s1) \<Rightarrow> ([c2], decoder s1)
           | (Threw e, s1) \<Rightarrow> ([], decoder s1))"
        using om Some False unfolding normalized_def Let_def c1_def by simp
      have "snd (normalized E s c ea) = decoder (snd (decode_chunk E c1 s))"
        unfolding n by (cases "decode_chunk E c1 s") (auto split: outcome.splits)
      then show ?thesis by blast
    qed
  qed
qed

lemma decoder_ready_normalized:
  assumes "decoder_ready s"
  shows "decoder_ready (advance (snd (normalized E s c ea)) os ts s)"
proof (cases "encodingSet s")
  case False
  then show ?thesis by (simp add: decoder_ready_def encodingSet_def)
next
  case True
  then obtain enc d where d: "decoder s = Some (enc, d)"
    using assms by (auto simp: decoder_ready_def)
  have "snd (normalized E s c ea) \<noteq> None"
    using snd_normalized [of E s c ea] d decoder_decode_chunk [OF d, of E] by auto
  then show ?thesis by (simp add: decoder_ready_def)
qed

lemma writes_streaming:
  assumes "streaming E s" and "decoder_ready s"
    and "objectMode s \<or> list_all (\<lambda>w. contiguous (fst w) \<noteq> None) ws"
  shows "\<exists>os ts. writes E ws s = (Ret (), advance (snd (emitted E s ws)) os ts s) \<and>
           (async s \<longrightarrow> os = [] \<and> data_tasks ts = fst (emitted E s ws) \<and>
                         list_all plain_task ts) \<and>
           (\<not> async s \<longrightarrow> ts = [] \<and> (\<forall>c. attached c s \<longrightarrow> got c os = fst (emitted E s ws)))"
  using assms
proof (induction ws arbitrary: s)
  case Nil
  have "s = advance (decoder s) [] [] s" by (simp add: advance_def)
  then have "writes E [] s = (Ret (), advance (snd (emitted E s [])) [] [] s)" by simp
  then show ?case by (intro exI [of _ "[]"]) simp
next
  case (Cons w ws)
  obtain c ea cb where w: "w = (c, ea, cb)" by (cases w)
  let ?d1 = "snd (normalized E s c ea)"
  let ?o1 = "if async s then [] else concat (map (\<lambda>x. flow_out x s) (emits E s c ea)) @ cb_obs cb"
  let ?t1 = "if async s then map T_EMITDATA (emits E s c ea) @ cb_tasks cb else []"
  let ?s1 = "advance ?d1 ?o1 ?t1 s"
  have ok: "objectMode s \<or> contiguous c \<noteq> None" using Cons.prems(3) w by auto
  have dr: "encodingSet s \<longrightarrow> decoder s \<noteq> None"
    using Cons.prems(2) by (simp add: decoder_ready_def)
  have w1: "write_mp E c ea cb s = (Ret True, ?s1)"
    by (rule write_streaming [OF Cons.prems(1) ok dr])
  have st1: "streaming E ?s1" using Cons.prems(1) by simp
  have dr1: "decoder_ready ?s1" by (rule decoder_ready_normalized [OF Cons.prems(2)])
  have ok1: "objectMode ?s1 \<or> list_all (\<lambda>w. contiguous (fst w) \<noteq> None) ws"
    using Cons.prems(3) by auto
  obtain os ts where ih: "writes E ws ?s1 = (Ret (), advance (snd (emitted E ?s1 ws)) os ts ?s1)"
    "async ?s1 \<longrightarrow> os = [] \<and> data_tasks ts = fst (emitted E ?s1 ws) \<and> list_all plain_task ts"
    "\<not> async ?s1 \<longrightarrow> ts = [] \<and> (\<forall>c. attached c ?s1 \<longrightarrow> got c os = fst (emitted E ?s1 ws))"
    using Cons.IH [OF st1 dr1 ok1] by blast
  have em: "emitted E ?s1 ws = emitted E (advance ?d1 [] [] s) ws" by (rule emitted_advance)
  have e: "emitted E s (w # ws) =
      (emits E s c ea @ fst (emitted E ?s1 ws), snd (emitted E ?s1 ws))"
    by (simp add: w Let_def em)
  have "writes E (w # ws) s = writes E ws ?s1" by (simp add: w w1)
  then have r: "writes E (w # ws) s =
      (Ret (), advance (snd (emitted E s (w # ws))) (?o1 @ os) (?t1 @ ts) s)"
    using ih(1) by (simp add: e del: emitted.simps)
  show ?case
  proof (intro exI conjI impI allI)
    show "writes E (w # ws) s =
        (Ret (), advance (snd (emitted E s (w # ws))) (?o1 @ os) (?t1 @ ts) s)" by (rule r)
  next
    assume "async s"
    then show "?o1 @ os = []" using ih(2) by simp
  next
    assume "async s"
    then show "data_tasks (?t1 @ ts) = fst (emitted E s (w # ws))"
      using ih(2) by (simp add: e del: emitted.simps)
  next
    assume "async s"
    then show "list_all plain_task (?t1 @ ts)" using ih(2) by simp
  next
    assume "\<not> async s"
    then show "?t1 @ ts = []" using ih(3) by simp
  next
    fix k assume "\<not> async s" "attached k s"
    then show "got k (?o1 @ os) = fst (emitted E s (w # ws))"
      using ih(3) by (simp add: e got_flow_outs del: emitted.simps)
  qed
qed

text \<open>What the decoder still yields when the stream ends.\<close>

definition flushed :: "env \<Rightarrow> (string \<times> sd) option \<Rightarrow> val list" where
  "flushed E dec =
     (case dec of
        None \<Rightarrow> []
      | Some (enc, d) \<Rightarrow> if fst (sd_end E enc d) \<noteq> [] then [Str (fst (sd_end E enc d))] else [])"

lemma got_EMITEND2_obs:
  assumes "attached c s" and "\<not> discarded s"
  shows "got c (EMITEND2_obs E s) = flushed E (decoder s)"
proof -
  have "EMITEND2_obs E s =
      (if flush_data E s \<noteq> [] then flow_out (Str (flush_data E s)) s else []) @
      pipe_ends (pipes s) @ calls Ev_end Undefined s"
    using assms(2) by (simp add: EMITEND2_obs_def flow_out_def)
  moreover have "flushed E (decoder s) =
      (if flush_data E s \<noteq> [] then [Str (flush_data E s)] else [])"
    by (simp add: flushed_def flush_data_def split: option.splits prod.splits)
  ultimately show ?thesis using assms(1) by (simp add: got_flow_out)
qed

lemma got_MAYBE_EMIT_END_obs:
  assumes "attached c s" and "\<not> discarded s" and "endCondition s"
  shows "got c (MAYBE_EMIT_END_obs E s) = (if async s then [] else flushed E (decoder s))"
  using assms by (simp add: MAYBE_EMIT_END_obs_def got_EMITEND2_obs)

subsection \<open>The deferred work of an async stream\<close>

lemma decoder_fire [simp]: "decoder (fire ev a s l) = decoder s"
  by (cases l) (simp_all add: prim_defs Let_def)

lemma decoder_deliver [simp]: "decoder (snd (deliver ev a s)) = decoder s"
proof -
  have "decoder (foldl (fire ev a) s ls) = decoder s" for ls
    by (induction ls arbitrary: s) simp_all
  then show ?thesis by (simp add: deliver_def)
qed

lemma decoder_removeAll [simp]: "decoder (removeAllListeners evo s) = decoder s"
  by (cases evo) (simp_all add: removeAllListeners_def Let_def)

lemma listeners_data_removeAll [simp]:
  "ev \<noteq> Ev_data \<Longrightarrow> listeners (removeAllListeners (Some ev) s) Ev_data = listeners s Ev_data"
  by (simp add: removeAllListeners_def Let_def)

text \<open>An emission of \<^verbatim>\<open>prefinish\<close>, \<^verbatim>\<open>finish\<close> or \<^verbatim>\<open>close\<close> leaves the consumers alone.\<close>

lemma emit_endish_consumers:
  assumes "ev = Ev_prefinish \<or> ev = Ev_finish \<or> ev = Ev_close"
  shows "listeners (snd (emit_endish E ev s)) Ev_data = listeners s Ev_data"
    and "decoder (snd (emit_endish E ev s)) = decoder s"
proof -
  have a: "listeners (removeAllListeners (Some ev) (snd (deliver ev Undefined t))) Ev_data =
      listeners t Ev_data" for t
    using assms by auto
  have b: "decoder (removeAllListeners (Some ev) (snd (deliver ev Undefined t))) = decoder t" for t
    by simp
  show "listeners (snd (emit_endish E ev s)) Ev_data = listeners s Ev_data"
    using assms a [of s] a [of "s\<lparr>closed := True\<rparr>"]
    by (auto simp: emit_endish_def Let_def split_beta)
  show "decoder (snd (emit_endish E ev s)) = decoder s"
    using assms b [of s] b [of "s\<lparr>closed := True\<rparr>"]
    by (auto simp: emit_endish_def Let_def split_beta)
qed

lemma MAYBE_EMIT_END_async:
  assumes "endCondition s" and "async s"
  shows "listeners (MAYBE_EMIT_END E s) Ev_data = listeners s Ev_data"
    and "decoder (MAYBE_EMIT_END E s) = decoder s"
proof -
  let ?s1 = "s\<lparr>emittingEnd := True\<rparr>"
  let ?s2 = "snd (emit_endish E Ev_end ?s1)"
  let ?s3 = "snd (emit_endish E Ev_prefinish ?s2)"
  let ?s4 = "snd (emit_endish E Ev_finish ?s3)"
  let ?s5 = "if closed ?s4 then snd (emit_endish E Ev_close ?s4) else ?s4"
  have "?s2 = defer_task T_EMITEND2 (?s1\<lparr>emittedEnd := True, readable := False\<rparr>)"
    using assms by (simp add: emit_endish_def EMITEND_def endCondition_def Let_def)
  then have s2: "listeners ?s2 Ev_data = listeners s Ev_data" "decoder ?s2 = decoder s"
    by (simp_all add: defer_task_def)
  have s3: "listeners ?s3 Ev_data = listeners s Ev_data" "decoder ?s3 = decoder s"
    using s2 by (simp_all add: emit_endish_consumers)
  have s4: "listeners ?s4 Ev_data = listeners s Ev_data" "decoder ?s4 = decoder s"
    using s3 by (simp_all add: emit_endish_consumers)
  have s5: "listeners ?s5 Ev_data = listeners s Ev_data" "decoder ?s5 = decoder s"
    using s4 by (simp_all add: emit_endish_consumers)
  have eq: "MAYBE_EMIT_END E s = ?s5\<lparr>emittingEnd := False\<rparr>"
    using assms by (simp add: MAYBE_EMIT_END_def endCondition_def Let_def)
  show "listeners (MAYBE_EMIT_END E s) Ev_data = listeners s Ev_data"
    unfolding eq using s5(1) by simp
  show "decoder (MAYBE_EMIT_END E s) = decoder s"
    unfolding eq using s5(2) by simp
qed

text \<open>
  A stream that has emitted end and still owes its consumers the deferred emissions.
\<close>

definition draining :: "env \<Rightarrow> minipass \<Rightarrow> bool" where
  "draining E s =
     (emittedEnd s \<and> \<not> discarded s \<and> (\<forall>l\<in>set (listeners s Ev_data). \<not> isOnce l) \<and>
      accepting E s)"

definition drained :: "obs list \<Rightarrow> task list \<Rightarrow> minipass \<Rightarrow> minipass" where
  "drained os ts s = s\<lparr>trace := trace s @ os, deferred := ts\<rparr>"

lemma drained_drained [simp]: "drained os2 ts2 (drained os1 ts1 s) = drained (os1 @ os2) ts2 s"
  by (simp add: drained_def)

lemma draining_drained [simp]: "draining E (drained os ts s) = draining E s"
  by (simp add: draining_def drained_def accepting_def)

lemma attached_drained [simp]: "attached c (drained os ts s) = attached c s"
  by (cases c) (simp_all add: drained_def)

lemma tick_plain:
  assumes "draining E s" and "deferred s = t # ts" and "plain_task t"
  shows "\<exists>os. snd (tick E s) = drained os ts s \<and>
           (\<forall>c. attached c s \<longrightarrow> got c os = data_tasks [t])"
proof (cases t)
  case (T_EMITDATA v)
  let ?s1 = "s\<lparr>deferred := ts\<rparr>"
  have d: "\<not> discarded ?s1" "accepting E ?s1" "\<forall>l\<in>set (listeners ?s1 Ev_data). \<not> isOnce l"
    "\<not> endCondition ?s1"
    using assms(1) by (simp_all add: draining_def accepting_def endCondition_def)
  have "snd (tick E s) = snd (EMITDATA E v ?s1)"
    using assms(2) T_EMITDATA by (simp add: tick_def Let_def)
  also have "\<dots> = record_obs (flow_out v ?s1) ?s1" by (rule EMITDATA_flow [OF d])
  also have "\<dots> = drained (flow_out v s) ts s"
    by (simp add: record_obs_def drained_def flow_out_def calls_def)
  finally show ?thesis using T_EMITDATA by (auto simp: got_flow_out)
next
  case (T_cb h)
  have "snd (tick E s) = drained [Callback h] ts s"
    using assms(2) T_cb by (simp add: tick_def Let_def record_obs_def drained_def)
  moreover have "got c [Callback h] = []" for c by (cases c) (simp_all add: got_def)
  ultimately show ?thesis using T_cb by auto
qed (use assms(3) in simp_all)

lemma ticks_plain:
  assumes "draining E s" and "deferred s = ts @ rest" and "list_all plain_task ts"
  shows "\<exists>os. ticks E (length ts) s = drained os rest s \<and>
           (\<forall>c. attached c s \<longrightarrow> got c os = data_tasks ts)"
  using assms
proof (induction ts arbitrary: s)
  case Nil
  have "s = drained [] rest s" using Nil(2) by (simp add: drained_def)
  then have "ticks E (length []) s = drained [] rest s" by simp
  then show ?case by (intro exI [of _ "[]"]) simp
next
  case (Cons t ts)
  obtain o1 where o1: "snd (tick E s) = drained o1 (ts @ rest) s"
    "\<forall>c. attached c s \<longrightarrow> got c o1 = data_tasks [t]"
    using tick_plain [of E s t "ts @ rest"] Cons.prems by auto
  let ?s1 = "drained o1 (ts @ rest) s"
  have "draining E ?s1" using Cons.prems(1) by simp
  moreover have "deferred ?s1 = ts @ rest" by (simp add: drained_def)
  moreover have "list_all plain_task ts" using Cons.prems(3) by simp
  ultimately
  obtain o2 where o2: "ticks E (length ts) ?s1 = drained o2 rest ?s1"
    "\<forall>c. attached c ?s1 \<longrightarrow> got c o2 = data_tasks ts"
    using Cons.IH [of ?s1] by blast
  have "ticks E (length (t # ts)) s = drained (o1 @ o2) rest s"
    by (simp add: o1(1) o2(1))
  moreover have "\<forall>c. attached c s \<longrightarrow> got c (o1 @ o2) = data_tasks (t # ts)"
  proof (intro allI impI)
    fix c assume a: "attached c s"
    have "data_tasks (t # ts) = data_tasks [t] @ data_tasks ts"
      by (cases t) simp_all
    then show "got c (o1 @ o2) = data_tasks (t # ts)" using a o1(2) o2(2) by simp
  qed
  ultimately show ?case by blast
qed

lemma ticks_add: "ticks E (m + n) s = ticks E n (ticks E m s)"
  by (induction m arbitrary: s) simp_all

lemma tick_EMITEND2:
  assumes "deferred s = [T_EMITEND2]"
  shows "snd (tick E s) = snd (EMITEND2 E (s\<lparr>deferred := []\<rparr>))"
  using assms by (simp add: tick_def Let_def)

lemma writes_then_end_delivers:
  assumes st: "streaming E s" and dr: "decoder_ready s"
    and ok: "objectMode s \<or> list_all (\<lambda>w. contiguous (fst w) \<noteq> None) ws"
    and q: "deferred s = []" and at: "attached c s"
  shows "fst (writes_then_end E ws s) = Ret ()"
    and "deferred (settle E (snd (writes_then_end E ws s))) = []"
    and "emittedEnd (settle E (snd (writes_then_end E ws s)))"
    and "got c (trace (settle E (snd (writes_then_end E ws s)))) =
           got c (trace s) @ fst (emitted E s ws) @ flushed E (snd (emitted E s ws))"
proof -
  let ?D = "snd (emitted E s ws)"
  obtain os ts where w: "writes E ws s = (Ret (), advance ?D os ts s)"
    and wa: "async s \<longrightarrow> os = [] \<and> data_tasks ts = fst (emitted E s ws) \<and>
                         list_all plain_task ts"
    and ws: "\<not> async s \<longrightarrow> ts = [] \<and> (\<forall>c. attached c s \<longrightarrow> got c os = fst (emitted E s ws))"
    using writes_streaming [OF st dr ok] by blast
  let ?s1 = "advance ?D os ts s"
  let ?s3 = "?s1\<lparr>eof := True, writable := False\<rparr>"
  let ?s4 = "MAYBE_EMIT_END E ?s3"
  have fl: "flowing ?s1" using st by (simp add: streaming_def)
  have e: "end_stream E Undefined None None ?s1 = (Ret (), ?s4)"
    using fl by (simp add: end_stream_def Let_def)
  have r: "writes_then_end E ws s = (Ret (), ?s4)"
    by (simp add: writes_then_end_def w e)
  show "fst (writes_then_end E ws s) = Ret ()" by (simp add: r)
  have ec: "endCondition ?s3"
    using st by (simp add: endCondition_def streaming_def advance_def)
  have a3: "attached c ?s3" using at by (cases c) (simp_all add: advance_def)
  have d3: "\<not> discarded ?s3" using st by (simp add: streaming_def advance_def)
  have dec3: "decoder ?s3 = ?D" by (simp add: advance_def)
  have tr3: "trace ?s3 = trace s @ os" by (simp add: advance_def)
  have df3: "deferred ?s3 = ts" using q by (simp add: advance_def)
  have as3: "async ?s3 = async s" by (simp add: advance_def)
  note F = MAYBE_EMIT_END_fires [OF ec, of E]
  have g4: "got c (trace ?s4) =
      got c (trace s) @ got c os @ (if async s then [] else flushed E ?D)"
    unfolding F(1) tr3 using got_MAYBE_EMIT_END_obs [OF a3 d3 ec, of E]
    by (simp add: as3 dec3)
  have df4: "deferred ?s4 = ts @ (if async s then [T_EMITEND2] else [])"
    unfolding F(3) df3 as3 by simp
  have goal: "deferred (settle E ?s4) = [] \<and> emittedEnd (settle E ?s4) \<and>
      got c (trace (settle E ?s4)) = got c (trace s) @ fst (emitted E s ws) @ flushed E ?D"
  proof (cases "async s")
    case False
    then have "deferred ?s4 = []" using df4 ws by simp
    then have "settle E ?s4 = ?s4" by (simp add: settle_def)
    then show ?thesis using False g4 ws at F(2) \<open>deferred ?s4 = []\<close> by simp
  next
    case True
    have os: "os = []" and dt: "data_tasks ts = fst (emitted E s ws)"
      and pl: "list_all plain_task ts"
      using True wa by simp_all
    have df4': "deferred ?s4 = ts @ [T_EMITEND2]" using df4 True by simp
    have l4: "listeners ?s4 Ev_data = listeners ?s3 Ev_data" and dec4: "decoder ?s4 = ?D"
      using MAYBE_EMIT_END_async [OF ec, of E] True dec3 by (simp_all add: as3)
    have p4: "pipes ?s4 = pipes ?s3" using frame_MAYBE_EMIT_END [of ?s3 E] by (simp add: frame_def)
    have c4: "discarded ?s4 = discarded ?s3"
      using calm_MAYBE_EMIT_END [of ?s3 E] by (simp add: calm_def)
    have dr4: "draining E ?s4"
      using st F(2) l4 p4 c4
      by (simp add: draining_def streaming_def accepting_def advance_def)
    have a4: "attached c ?s4" using a3 l4 p4 by (cases c) simp_all
    obtain o1 where t1: "ticks E (length ts) ?s4 = drained o1 [T_EMITEND2] ?s4"
      and g1: "\<forall>c. attached c ?s4 \<longrightarrow> got c o1 = data_tasks ts"
      using ticks_plain [OF dr4 df4' pl] by blast
    let ?s5 = "drained o1 [T_EMITEND2] ?s4"
    let ?s6 = "?s5\<lparr>deferred := []\<rparr>"
    have "settle E ?s4 = ticks E (length ts + 1) ?s4" by (simp add: settle_def df4')
    also have "\<dots> = ticks E 1 (ticks E (length ts) ?s4)" by (rule ticks_add)
    also have "\<dots> = snd (tick E ?s5)" unfolding t1 by simp
    also have "\<dots> = snd (EMITEND2 E ?s6)"
      by (rule tick_EMITEND2) (simp add: drained_def)
    finally have se: "settle E ?s4 = snd (EMITEND2 E ?s6)" .
    have q6: "quiet ?s6 (snd (EMITEND2 E ?s6))" by simp
    have a6: "attached c ?s6" using a4 by (cases c) (simp_all add: drained_def)
    have d6: "\<not> discarded ?s6" using d3 c4 by (simp add: drained_def)
    have dec6: "decoder ?s6 = ?D" using dec4 by (simp add: drained_def)
    have tr6: "trace ?s6 = trace ?s4 @ o1" by (simp add: drained_def)
    have ee6: "emittedEnd ?s6" using F(2) by (simp add: drained_def)
    have g6: "got c (trace (snd (EMITEND2 E ?s6))) =
        got c (trace ?s4) @ got c o1 @ flushed E ?D"
      unfolding trace_EMITEND2 tr6 using got_EMITEND2_obs [OF a6 d6, of E]
      by (simp add: dec6)
    have "deferred (snd (EMITEND2 E ?s6)) = []" using q6 by (simp add: quiet_def)
    moreover have "emittedEnd (snd (EMITEND2 E ?s6))" using q6 ee6 by (simp add: quiet_def)
    ultimately show ?thesis
      unfolding se g6 g4 using True os g1 a4 dt by simp
  qed
  show "deferred (settle E (snd (writes_then_end E ws s))) = []"
    and "emittedEnd (settle E (snd (writes_then_end E ws s)))"
    and "got c (trace (settle E (snd (writes_then_end E ws s)))) =
           got c (trace s) @ fst (emitted E s ws) @ flushed E (snd (emitted E s ws))"
    using goal by (simp_all add: r)
qed

subsection \<open>What was written\<close>

text \<open>
  The bytes of a written chunk, for a stream of Buffers: a string is converted with the
  encoding of the write.
\<close>

fun bytes_written :: "env \<Rightarrow> val \<Rightarrow> string option \<Rightarrow> byte list" where
  "bytes_written E (Buf b) ea = b"
| "bytes_written E (ABView b) ea = b"
| "bytes_written E (ABuf b) ea = b"
| "bytes_written E (Str x) ea = (if x = [] then [] else buffer_from E x (enc_or_utf8 ea))"
| "bytes_written E v ea = []"

text \<open>
  The text of a written chunk, for a stream with an encoding and a decoder in state \<open>d\<close>: a
  string in the encoding of the stream passes as it is while the decoder retains nothing,
  everything else goes through the decoder as bytes.
\<close>

fun decode_written :: "env \<Rightarrow> string \<Rightarrow> sd \<Rightarrow> val \<Rightarrow> string option \<Rightarrow> jsstring \<times> sd" where
  "decode_written E enc d (Str x) ea =
     (if x = [] then ([], d)
      else if enc_or_utf8 ea = enc \<and> \<not> sd_lastNeed E d then (x, d)
      else sd_write E enc d (buffer_from E x (enc_or_utf8 ea)))"
| "decode_written E enc d (Buf b) ea = (if b = [] then ([], d) else sd_write E enc d b)"
| "decode_written E enc d (ABView b) ea = (if b = [] then ([], d) else sd_write E enc d b)"
| "decode_written E enc d (ABuf b) ea = (if b = [] then ([], d) else sd_write E enc d b)"
| "decode_written E enc d v ea = ([], d)"

fun text_written :: "env \<Rightarrow> string \<Rightarrow> sd \<Rightarrow> wcall list \<Rightarrow> jsstring \<times> sd" where
  "text_written E enc d [] = ([], d)"
| "text_written E enc d ((c, ea, cb) # ws) =
     (let r1 = decode_written E enc d c ea;
          r2 = text_written E enc (snd r1) ws
      in (fst r1 @ fst r2, snd r2))"

fun buffer_bytes :: "val \<Rightarrow> byte list" where
  "buffer_bytes (Buf b) = b"
| "buffer_bytes v = []"

fun string_units :: "val \<Rightarrow> jsstring" where
  "string_units (Str x) = x"
| "string_units v = []"

lemma enc_or_utf8_nonempty [simp]: "enc_or_utf8 ea \<noteq> []"
  by (simp add: enc_or_utf8_def split: option.splits)

lemma emitted_object:
  "objectMode s \<Longrightarrow> fst (emitted E s ws) = map fst ws \<and> snd (emitted E s ws) = decoder s"
proof (induction ws arbitrary: s)
  case Nil
  show ?case by simp
next
  case (Cons w ws)
  obtain c ea cb where w: "w = (c, ea, cb)" by (cases w)
  have n: "normalized E s c ea = ([c], decoder s)" using Cons.prems by (simp add: normalized_def)
  have "objectMode (advance (decoder s) [] [] s)" using Cons.prems by simp
  from Cons.IH [OF this] show ?case
    using Cons.prems by (simp add: w n emits_def passes_def Let_def)
qed

lemma normalized_bytes:
  assumes "\<not> objectMode s" and "\<not> encodingSet s" and "contiguous c \<noteq> None"
  shows "snd (normalized E s c ea) = decoder s"
    and "list_all isBuffer (emits E s c ea)"
    and "concat (map buffer_bytes (emits E s c ea)) = bytes_written E c ea"
proof -
  obtain k where k: "contiguous c = Some k" using assms(3) by auto
  have ne: "Some (enc_or_utf8 ea) \<noteq> encoding s"
    using assms(2) by (auto simp: encodingSet_def split: option.splits)
  have "snd (normalized E s c ea) = decoder s \<and> list_all isBuffer (emits E s c ea) \<and>
    concat (map buffer_bytes (emits E s c ea)) = bytes_written E c ea"
    using k assms(1,2) ne
    by (cases c) (auto simp: normalized_def emits_def passes_def Let_def)
  then show "snd (normalized E s c ea) = decoder s"
    and "list_all isBuffer (emits E s c ea)"
    and "concat (map buffer_bytes (emits E s c ea)) = bytes_written E c ea"
    by simp_all
qed

lemma emitted_bytes:
  assumes "\<not> objectMode s" and "\<not> encodingSet s"
    and "list_all (\<lambda>w. contiguous (fst w) \<noteq> None) ws"
  shows "snd (emitted E s ws) = decoder s \<and> list_all isBuffer (fst (emitted E s ws)) \<and>
         concat (map buffer_bytes (fst (emitted E s ws))) =
           concat (map (\<lambda>w. bytes_written E (fst w) (fst (snd w))) ws)"
  using assms
proof (induction ws arbitrary: s)
  case Nil
  show ?case by simp
next
  case (Cons w ws)
  obtain c ea cb where w: "w = (c, ea, cb)" by (cases w)
  have ok: "contiguous c \<noteq> None" using Cons.prems(3) w by simp
  note N = normalized_bytes [OF Cons.prems(1,2) ok, of E ea]
  let ?s1 = "advance (decoder s) [] [] s"
  have "\<not> objectMode ?s1" "\<not> encodingSet ?s1" "list_all (\<lambda>w. contiguous (fst w) \<noteq> None) ws"
    using Cons.prems by (simp_all add: encodingSet_def)
  from Cons.IH [OF this] show ?case
    using N by (simp add: w Let_def)
qed

lemma normalized_text:
  assumes "\<not> objectMode s" and "encoding s = Some enc" and "enc \<noteq> []"
    and "decoder s = Some (enc, d)" and "contiguous c \<noteq> None"
  shows "snd (normalized E s c ea) = Some (enc, snd (decode_written E enc d c ea))"
    and "concat (map string_units (emits E s c ea)) = fst (decode_written E enc d c ea)"
proof -
  obtain k where k: "contiguous c = Some k" using assms(5) by auto
  have es: "encodingSet s" using assms(2,3) by (simp add: encodingSet_def)
  have ln: "lastNeed E s = sd_lastNeed E d" using assms(4) by (simp add: lastNeed_def)
  have "snd (normalized E s c ea) = Some (enc, snd (decode_written E enc d c ea)) \<and>
    concat (map string_units (emits E s c ea)) = fst (decode_written E enc d c ea)"
    using k assms(1,2,4) es ln
    by (cases c) (auto simp: normalized_def emits_def passes_def Let_def split_beta)
  then show "snd (normalized E s c ea) = Some (enc, snd (decode_written E enc d c ea))"
    and "concat (map string_units (emits E s c ea)) = fst (decode_written E enc d c ea)"
    by simp_all
qed

lemma emitted_text:
  assumes "\<not> objectMode s" and "encoding s = Some enc" and "enc \<noteq> []"
    and "decoder s = Some (enc, d)"
    and "list_all (\<lambda>w. contiguous (fst w) \<noteq> None) ws"
  shows "snd (emitted E s ws) = Some (enc, snd (text_written E enc d ws)) \<and>
         concat (map string_units (fst (emitted E s ws))) = fst (text_written E enc d ws)"
  using assms
proof (induction ws arbitrary: s d)
  case Nil
  then show ?case by simp
next
  case (Cons w ws)
  obtain c ea cb where w: "w = (c, ea, cb)" by (cases w)
  have ok: "contiguous c \<noteq> None" using Cons.prems(5) w by simp
  note N = normalized_text [OF Cons.prems(1-4) ok, of E ea]
  let ?d1 = "snd (decode_written E enc d c ea)"
  let ?s1 = "advance (Some (enc, ?d1)) [] [] s"
  have "\<not> objectMode ?s1" "encoding ?s1 = Some enc" "enc \<noteq> []"
    "decoder ?s1 = Some (enc, ?d1)" "list_all (\<lambda>w. contiguous (fst w) \<noteq> None) ws"
    using Cons.prems by simp_all
  from Cons.IH [OF this] show ?case
    using N by (simp add: w Let_def)
qed

subsection \<open>The claim\<close>

text \<open>A stream of Buffers with one data handler, and three writes to it.\<close>

definition consumed :: minipass where
  "consumed = snd (on env0 Ev_data (Handler 7) fresh)"

definition three_writes :: "wcall list" where
  "three_writes = [(Buf [1, 2], None, None), (Str [3], None, Some 9), (ABView [], None, None)]"

lemma consumed_eq:
  "consumed = fresh\<lparr>flowing := True, dataListeners := 1,
       listeners := (\<lambda>e. [])(Ev_data := [Handler 7])\<rparr>"
  by (simp add: consumed_def run_defs)

text \<open>
  A host whose destinations never accept, and a stream piped to one of them.
\<close>

definition env_slow :: env where
  "env_slow = env0\<lparr>dest_write := (\<lambda>d h v. False)\<rparr>"

definition piped :: minipass where
  "piped = snd (pipe env_slow 3 \<lparr>opt_end = None, opt_proxyErrors = None\<rparr> fresh)"

lemma piped_eq:
  "piped = fresh\<lparr>flowing := True,
       pipes := [\<lparr>dest = 3, opts_end = True, opts_proxyErrors = False\<rparr>]\<rparr>"
  by (simp add: piped_def pipe_def env_slow_def run_defs)




section \<open>The endish check\<close>

definition endish :: "event set" where
  "endish = {Ev_end, Ev_prefinish, Ev_finish, Ev_close}"

subsection \<open>Handlers that act on the stream\<close>

text \<open>
  A handler runs inside the emission that calls it and may act on the stream before it
  returns: destroy it, pause it, add or remove listeners.  What the call of handler \<open>h\<close>
  for an event does to the stream is a reaction.  The closing sequence is embedded here
  with reactions: \<^verbatim>\<open>super.emit\<close> calls the listeners that were registered when it started,
  each one-shot wrapper removes itself first, and the stream goes on from the state the
  handler left.  The error-proxying closure of a pipe only calls its destination.
\<close>

type_synonym reaction = "hid \<Rightarrow> event \<Rightarrow> val \<Rightarrow> minipass \<Rightarrow> minipass"

fun fire_re :: "reaction \<Rightarrow> event \<Rightarrow> val \<Rightarrow> minipass \<Rightarrow> listener \<Rightarrow> minipass" where
  "fire_re R ev a s (Handler h) = R h ev a (fire ev a s (Handler h))"
| "fire_re R ev a s (OnceHandler h) = R h ev a (fire ev a s (OnceHandler h))"
| "fire_re R ev a s (ProxyErrors d) = fire ev a s (ProxyErrors d)"

definition deliver_re :: "reaction \<Rightarrow> event \<Rightarrow> val \<Rightarrow> minipass \<Rightarrow> bool \<times> minipass" where
  "deliver_re R ev a s = (listeners s ev \<noteq> [], foldl (fire_re R ev a) s (listeners s ev))"

definition decoder_end_re :: "reaction \<Rightarrow> env \<Rightarrow> minipass \<Rightarrow> minipass" where
  "decoder_end_re R E s =
     (case decoder s of
        None \<Rightarrow> s
      | Some (enc, d) \<Rightarrow>
          (let (data, d') = sd_end E enc d;
               s' = s\<lparr>decoder := Some (enc, d')\<rparr>
           in if data \<noteq> [] then
                (let s2 = foldl (\<lambda>t p. record_obs [DestWrite (dest p) (Str data)] t)
                            s' (pipes s')
                 in if \<not> discarded s2 then snd (deliver_re R Ev_data (Str data) s2) else s2)
              else s'))"

definition EMITEND2_re :: "reaction \<Rightarrow> env \<Rightarrow> minipass \<Rightarrow> bool \<times> minipass" where
  "EMITEND2_re R E s =
     (let s1 = decoder_end_re R E s;
          s3 = foldl (\<lambda>t p. Pipe_end p t) s1 (pipes s1);
          (ret, s4) = deliver_re R Ev_end Undefined s3
      in (ret, removeAllListeners (Some Ev_end) s4))"

definition EMITEND_re :: "reaction \<Rightarrow> env \<Rightarrow> minipass \<Rightarrow> bool \<times> minipass" where
  "EMITEND_re R E s =
     (if emittedEnd s then (False, s)
      else (let s1 = s\<lparr>emittedEnd := True, readable := False\<rparr> in
            if async s1 then (True, defer_task T_EMITEND2 s1) else EMITEND2_re R E s1))"

definition emit_endish_re :: "reaction \<Rightarrow> env \<Rightarrow> event \<Rightarrow> minipass \<Rightarrow> bool \<times> minipass" where
  "emit_endish_re R E ev s =
     (if ev \<noteq> Ev_close \<and> destroyed s then (False, s)
      else if ev = Ev_end then EMITEND_re R E s
      else if ev = Ev_close then
        (let s1 = s\<lparr>closed := True\<rparr> in
         if \<not> emittedEnd s1 \<and> \<not> destroyed s1 then (False, s1)
         else (let (ret, s2) = deliver_re R Ev_close Undefined s1
               in (ret, removeAllListeners (Some Ev_close) s2)))
      else (let (ret, s1) = deliver_re R ev Undefined s
            in (ret, removeAllListeners (Some ev) s1)))"

definition MAYBE_EMIT_END_re :: "reaction \<Rightarrow> env \<Rightarrow> minipass \<Rightarrow> minipass" where
  "MAYBE_EMIT_END_re R E s =
     (if \<not> emittingEnd s \<and> \<not> emittedEnd s \<and> \<not> destroyed s \<and> buffer s = [] \<and> eof s then
        (let s1 = s\<lparr>emittingEnd := True\<rparr>;
             s2 = snd (emit_endish_re R E Ev_end s1);
             s3 = snd (emit_endish_re R E Ev_prefinish s2);
             s4 = snd (emit_endish_re R E Ev_finish s3);
             s5 = (if closed s4 then snd (emit_endish_re R E Ev_close s4) else s4)
         in s5\<lparr>emittingEnd := False\<rparr>)
      else s)"

text \<open>
  The handlers that leave the stream alone, and the reactions that do not themselves have
  handlers of the closing sequence called (by emitting one of its events, or by adding a
  listener for one that was emitted already).
\<close>

definition still :: reaction where
  "still h ev a s = s"

definition discreet :: "reaction \<Rightarrow> bool" where
  "discreet R = (\<forall>h ev a t. calls_of endish (trace (R h ev a t)) = calls_of endish (trace t))"

text \<open>The observations of a list that are calls of handlers of one event.\<close>

definition only :: "event \<Rightarrow> obs list \<Rightarrow> bool" where
  "only ev xs = list_all (is_call_of {ev}) xs"

subsection \<open>With handlers that leave the stream alone\<close>

lemma fire_re_still: "fire_re still = fire"
proof (intro ext)
  fix ev a s l
  show "fire_re still ev a s l = fire ev a s l" by (cases l) (simp_all add: still_def)
qed

lemma deliver_re_still: "deliver_re still = deliver"
  by (intro ext) (simp add: deliver_re_def deliver_def fire_re_still)

lemma decoder_end_re_still: "decoder_end_re still = decoder_end"
  unfolding decoder_end_re_def decoder_end_def deliver_re_still by (rule refl)

lemma EMITEND2_re_still: "EMITEND2_re still = EMITEND2"
  unfolding EMITEND2_re_def EMITEND2_def deliver_re_still decoder_end_re_still by (rule refl)

lemma EMITEND_re_still: "EMITEND_re still = EMITEND"
  unfolding EMITEND_re_def EMITEND_def EMITEND2_re_still by (rule refl)

lemma emit_endish_re_still: "emit_endish_re still = emit_endish"
  unfolding emit_endish_re_def emit_endish_def EMITEND_re_still deliver_re_still by (rule refl)

lemma MAYBE_EMIT_END_re_still: "MAYBE_EMIT_END_re still = MAYBE_EMIT_END"
  unfolding MAYBE_EMIT_END_re_def MAYBE_EMIT_END_def emit_endish_re_still by (rule refl)

lemma discreet_still [simp]: "discreet still"
  by (simp add: discreet_def still_def)

subsection \<open>With handlers that act\<close>

lemma only_Nil [simp]: "only ev []"
  by (simp add: only_def)

lemma only_handler_calls [simp]: "only ev (handler_calls ev a s)"
proof -
  have "list_all (is_call_of {ev}) (concat (map (handler_call ev a) ls))" for ls
  proof (induction ls)
    case (Cons l ls)
    then show ?case by (cases l) simp_all
  qed simp
  then show ?thesis by (simp add: only_def handler_calls_def)
qed

lemma endish_fire_re:
  assumes "discreet R"
  shows "calls_of endish (trace (fire_re R ev a s l)) =
         calls_of endish (trace s) @ calls_of endish [call_listener ev a l]"
proof -
  have f: "calls_of endish (trace (fire ev a s k)) =
           calls_of endish (trace s) @ calls_of endish [call_listener ev a k]" for k
    by simp
  have r: "calls_of endish (trace (R h ev a t)) = calls_of endish (trace t)" for h t
    using assms by (simp add: discreet_def)
  show ?thesis by (cases l) (simp_all only: fire_re.simps r f)
qed

lemma endish_foldl_fire_re:
  assumes "discreet R"
  shows "calls_of endish (trace (foldl (fire_re R ev a) s ls)) =
         calls_of endish (trace s) @ calls_of endish (map (call_listener ev a) ls)"
proof (induction ls arbitrary: s)
  case Nil
  show ?case by simp
next
  case (Cons l ls)
  have "calls_of endish (map (call_listener ev a) (l # ls)) =
        calls_of endish [call_listener ev a l] @ calls_of endish (map (call_listener ev a) ls)"
    by (simp add: calls_of_def)
  then show ?case using Cons.IH [of "fire_re R ev a s l"] endish_fire_re [OF assms, of ev a s l]
    by simp
qed

lemma endish_deliver_re:
  assumes "discreet R"
  shows "calls_of endish (trace (snd (deliver_re R ev a s))) =
         calls_of endish (trace s) @ (if ev \<in> endish then handler_calls ev a s else [])"
  using endish_foldl_fire_re [OF assms, of ev a s "listeners s ev"]
  by (simp add: deliver_re_def calls_of_map_call_listener handler_calls_def)

lemma endish_decoder_end_re:
  assumes "discreet R"
  shows "calls_of endish (trace (decoder_end_re R E s)) = calls_of endish (trace s)"
proof (cases "decoder s")
  case None
  then show ?thesis by (simp add: decoder_end_re_def)
next
  case (Some p)
  obtain enc d where p: "p = (enc, d)" by (cases p)
  obtain data d' where e: "sd_end E enc d = (data, d')" by (cases "sd_end E enc d")
  let ?s' = "s\<lparr>decoder := Some (enc, d')\<rparr>"
  let ?s2 = "record_obs (pipe_writes (Str data) (pipes ?s')) ?s'"
  have a: "calls_of endish (trace ?s2) = calls_of endish (trace s)"
    by (simp add: record_obs_def)
  have b: "calls_of endish (trace (snd (deliver_re R Ev_data (Str data) ?s2))) =
           calls_of endish (trace s)"
    using endish_deliver_re [OF assms, of Ev_data "Str data" ?s2] a by (simp add: endish_def)
  have "decoder_end_re R E s =
      (if data \<noteq> [] then (if \<not> discarded ?s2 then snd (deliver_re R Ev_data (Str data) ?s2) else ?s2)
       else ?s')"
    using Some p e by (simp add: decoder_end_re_def foldl_record_writes Let_def)
  then show ?thesis using a b by simp
qed

lemma endish_EMITEND2_re:
  assumes "discreet R"
  shows "\<exists>x. calls_of endish (trace (snd (EMITEND2_re R E s))) = calls_of endish (trace s) @ x \<and>
             only Ev_end x"
proof -
  let ?s1 = "decoder_end_re R E s"
  let ?s3 = "foldl (\<lambda>t p. Pipe_end p t) ?s1 (pipes ?s1)"
  have a: "calls_of endish (trace ?s3) = calls_of endish (trace s)"
    using endish_decoder_end_re [OF assms, of E s] by (simp add: trace_foldl_Pipe_end)
  have "snd (EMITEND2_re R E s) =
        removeAllListeners (Some Ev_end) (snd (deliver_re R Ev_end Undefined ?s3))"
    by (simp add: EMITEND2_re_def Let_def split_beta)
  then have "calls_of endish (trace (snd (EMITEND2_re R E s))) =
        calls_of endish (trace s) @ handler_calls Ev_end Undefined ?s3"
    using endish_deliver_re [OF assms, of Ev_end Undefined ?s3] a by (simp add: endish_def)
  then show ?thesis using only_handler_calls by blast
qed

lemma endish_emit_endish_re:
  assumes "discreet R" and "ev \<in> endish"
  shows "\<exists>x. calls_of endish (trace (snd (emit_endish_re R E ev s))) =
               calls_of endish (trace s) @ x \<and> only ev x"
proof -
  have idle: "\<exists>x. calls_of endish (trace t) = calls_of endish (trace t) @ x \<and> only ev x" for t
    by (rule exI [of _ "[]"]) simp
  consider (gu) "ev \<noteq> Ev_close" "destroyed s"
    | (en) "\<not> (ev \<noteq> Ev_close \<and> destroyed s)" "ev = Ev_end"
    | (cl) "\<not> (ev \<noteq> Ev_close \<and> destroyed s)" "ev = Ev_close"
    | (ot) "\<not> (ev \<noteq> Ev_close \<and> destroyed s)" "ev \<noteq> Ev_end" "ev \<noteq> Ev_close"
    by blast
  then show ?thesis
  proof cases
    case gu
    then have "emit_endish_re R E ev s = (False, s)" by (simp add: emit_endish_re_def)
    then show ?thesis using idle [of s] by simp
  next
    case en
    then have e: "emit_endish_re R E ev s = EMITEND_re R E s" by (simp add: emit_endish_re_def)
    let ?s1 = "s\<lparr>emittedEnd := True, readable := False\<rparr>"
    show ?thesis
    proof (cases "emittedEnd s")
      case True
      then show ?thesis using e idle [of s] by (simp add: EMITEND_re_def)
    next
      case False
      show ?thesis
      proof (cases "async s")
        case True
        then have "trace (snd (emit_endish_re R E ev s)) = trace s"
          using e False by (simp add: EMITEND_re_def defer_task_def)
        then show ?thesis using idle [of s] by simp
      next
        case sy: False
        have "snd (emit_endish_re R E ev s) = snd (EMITEND2_re R E ?s1)"
          using e False sy by (simp add: EMITEND_re_def)
        then show ?thesis using endish_EMITEND2_re [OF assms(1), of E ?s1] en(2) by simp
      qed
    qed
  next
    case cl
    let ?s1 = "s\<lparr>closed := True\<rparr>"
    show ?thesis
    proof (cases "\<not> emittedEnd ?s1 \<and> \<not> destroyed ?s1")
      case True
      then have "trace (snd (emit_endish_re R E ev s)) = trace s"
        using cl by (simp add: emit_endish_re_def)
      then show ?thesis using idle [of s] by simp
    next
      case False
      then have "snd (emit_endish_re R E ev s) =
          removeAllListeners (Some Ev_close) (snd (deliver_re R Ev_close Undefined ?s1))"
        using cl by (auto simp: emit_endish_re_def split_beta Let_def)
      then have "calls_of endish (trace (snd (emit_endish_re R E ev s))) =
          calls_of endish (trace s) @ handler_calls Ev_close Undefined ?s1"
        using endish_deliver_re [OF assms(1), of Ev_close Undefined ?s1] by (simp add: endish_def)
      then show ?thesis using only_handler_calls cl(2) by blast
    qed
  next
    case ot
    then have "snd (emit_endish_re R E ev s) =
        removeAllListeners (Some ev) (snd (deliver_re R ev Undefined s))"
      by (simp add: emit_endish_re_def split_beta)
    then have "calls_of endish (trace (snd (emit_endish_re R E ev s))) =
        calls_of endish (trace s) @ handler_calls ev Undefined s"
      using endish_deliver_re [OF assms(1), of ev Undefined s] assms(2) by simp
    then show ?thesis using only_handler_calls by blast
  qed
qed

lemma MAYBE_EMIT_END_re_idle:
  "\<not> endCondition s \<Longrightarrow> MAYBE_EMIT_END_re R E s = s"
  by (auto simp: MAYBE_EMIT_END_re_def endCondition_def)

lemma MAYBE_EMIT_END_re_order:
  assumes "discreet R"
  shows "\<exists>e1 e2 e3 e4.
           calls_of endish (trace (MAYBE_EMIT_END_re R E s)) =
             calls_of endish (trace s) @ e1 @ e2 @ e3 @ e4 \<and>
           only Ev_end e1 \<and> only Ev_prefinish e2 \<and> only Ev_finish e3 \<and> only Ev_close e4"
proof (cases "endCondition s")
  case False
  have "calls_of endish (trace s) = calls_of endish (trace s) @ [] @ [] @ [] @ []" by simp
  then show ?thesis using MAYBE_EMIT_END_re_idle [OF False, of R E] only_Nil by metis
next
  case True
  let ?s1 = "s\<lparr>emittingEnd := True\<rparr>"
  let ?s2 = "snd (emit_endish_re R E Ev_end ?s1)"
  let ?s3 = "snd (emit_endish_re R E Ev_prefinish ?s2)"
  let ?s4 = "snd (emit_endish_re R E Ev_finish ?s3)"
  let ?s5 = "if closed ?s4 then snd (emit_endish_re R E Ev_close ?s4) else ?s4"
  obtain e1 where e1: "calls_of endish (trace ?s2) = calls_of endish (trace s) @ e1" "only Ev_end e1"
    using endish_emit_endish_re [OF assms, of Ev_end E ?s1] by (auto simp: endish_def)
  obtain e2 where e2: "calls_of endish (trace ?s3) = calls_of endish (trace ?s2) @ e2"
      "only Ev_prefinish e2"
    using endish_emit_endish_re [OF assms, of Ev_prefinish E ?s2] by (auto simp: endish_def)
  obtain e3 where e3: "calls_of endish (trace ?s4) = calls_of endish (trace ?s3) @ e3"
      "only Ev_finish e3"
    using endish_emit_endish_re [OF assms, of Ev_finish E ?s3] by (auto simp: endish_def)
  obtain e4 where e4: "calls_of endish (trace ?s5) = calls_of endish (trace ?s4) @ e4"
      "only Ev_close e4"
  proof (cases "closed ?s4")
    case True
    then show ?thesis
      using endish_emit_endish_re [OF assms, of Ev_close E ?s4] that by (auto simp: endish_def)
  next
    case False
    then show ?thesis using that [of "[]"] by simp
  qed
  have "MAYBE_EMIT_END_re R E s = ?s5\<lparr>emittingEnd := False\<rparr>"
    using True by (simp add: MAYBE_EMIT_END_re_def endCondition_def Let_def)
  then have "calls_of endish (trace (MAYBE_EMIT_END_re R E s)) =
      calls_of endish (trace s) @ e1 @ e2 @ e3 @ e4"
    using e1(1) e2(1) e3(1) e4(1) by simp
  then show ?thesis using e1(2) e2(2) e3(2) e4(2) by blast
qed


subsection \<open>The claim\<close>

definition async_opts :: Options where
  "async_opts = \<lparr>options_async = Bool True, options_signal = None, options_encoding = None,
            options_objectMode = False\<rparr>"

text \<open>An async stream with a listener for \<^verbatim>\<open>end\<close> and one for \<^verbatim>\<open>finish\<close>.\<close>

definition listening :: minipass where
  "listening = snd (on env0 Ev_finish (Handler 2) (snd (on env0 Ev_end (Handler 1)
                 (fresh\<lparr>async := True\<rparr>))))"

text \<open>A stream that was ended, with a listener for each event of the closing sequence.\<close>

definition closing :: minipass where
  "closing = fresh\<lparr>eof := True, closed := True,
       listeners := (\<lambda>e. [])(Ev_end := [Handler 1], Ev_prefinish := [Handler 2],
                                Ev_finish := [Handler 3], Ev_close := [Handler 4])\<rparr>"

text \<open>Handlers of which the first, called for \<^verbatim>\<open>end\<close>, destroys the stream.\<close>

definition destroyer :: reaction where
  "destroyer h ev a s = (if h = 1 \<and> ev = Ev_end then snd (destroy env0 Undefined s) else s)"

text \<open>
  A handler of \<^verbatim>\<open>end\<close> that destroys the stream: the handlers of \<^verbatim>\<open>prefinish\<close> and of
  \<^verbatim>\<open>finish\<close> are not called, the handler of \<^verbatim>\<open>close\<close> is.
\<close>

lemma endish_handler_destroys:
  "calls_of endish (trace (MAYBE_EMIT_END_re destroyer env0 closing)) =
     [Call Ev_end 1 Undefined, Call Ev_close 4 Undefined] \<and>
   destroyed (MAYBE_EMIT_END_re destroyer env0 closing)"
  by (simp add: closing_def MAYBE_EMIT_END_re_def emit_endish_re_def EMITEND_re_def
      EMITEND2_re_def decoder_end_re_def deliver_re_def destroyer_def calls_of_def endish_def
      run_defs)

lemma endish_destroy:
  "calls_of endish (trace (snd (destroy E Undefined s))) = calls_of endish (trace s)"
proof -
  have em: "calls_of endish (trace (emit_drop E Sym_DESTROYED Undefined t)) =
            calls_of endish (trace t)" if "destroyed t" for t
  proof -
    let ?t1 = "snd (deliver Sym_DESTROYED Undefined t)"
    have d: "destroyed ?t1" using frame_deliver [of t Sym_DESTROYED Undefined] that
      by (simp add: frame_def)
    have "\<not> endCondition ?t1" using d by (simp add: endCondition_def)
    then have "MAYBE_EMIT_END E ?t1 = ?t1" by (rule MAYBE_EMIT_END_idle)
    then have "emit_drop E Sym_DESTROYED Undefined t = ?t1"
      by (simp add: emit_drop_def emit_def split_beta)
    then show ?thesis by (simp add: trace_deliver calls_def [symmetric] endish_def)
  qed
  let ?s1 = "s\<lparr>destroyed := True, discarded := True, buffer := [], bufferLength := 0\<rparr>"
  let ?s2 = "if hasClose ?s1 \<and> \<not> closed ?s1 then record_obs [CloseHook] ?s1 else ?s1"
  have a: "destroyed ?s2" by (simp add: record_obs_def)
  have b: "calls_of endish (trace ?s2) = calls_of endish (trace s)"
    by (simp add: record_obs_def calls_of_def)
  show ?thesis
  proof (cases "destroyed s")
    case True
    then show ?thesis using em [OF True]
      by (simp add: destroy_def emit_destroyed_def emit_drop_def)
  next
    case False
    then have "snd (destroy E Undefined s) = emit_drop E Sym_DESTROYED Undefined ?s2"
      by (simp add: destroy_def emit_destroyed_def Let_def)
    then show ?thesis using em [OF a] b by simp
  qed
qed

lemma discreet_destroyer: "discreet destroyer"
  by (simp add: discreet_def destroyer_def endish_destroy)



text \<open>
  The claim as it is written fails on an async stream: the handler of \<^verbatim>\<open>finish\<close> is called
  when \<^verbatim>\<open>end()\<close> runs the check, the handler of \<^verbatim>\<open>end\<close> one turn later.
\<close>

lemma listening_eq:
  "listening = fresh\<lparr>async := True,
       listeners := (\<lambda>e. [])(Ev_end := [Handler 1], Ev_finish := [Handler 2])\<rparr>"
  by (simp add: listening_def run_defs fun_upd_twist)


section \<open>Writing to a destroyed stream\<close>

text \<open>A destroyed stream without and with a listener for \<^verbatim>\<open>error\<close>.\<close>

definition destroyed_bare :: minipass where
  "destroyed_bare = snd (destroy env0 Undefined fresh)"

definition destroyed_heard :: minipass where
  "destroyed_heard = snd (destroy env0 Undefined (snd (on env0 Ev_error (Handler 3) fresh)))"

lemma destroyed_bare_eq:
  "destroyed_bare = fresh\<lparr>destroyed := True, discarded := True\<rparr>"
  by (simp add: destroyed_bare_def run_defs)

lemma destroyed_heard_eq:
  "destroyed_heard = fresh\<lparr>destroyed := True, discarded := True,
      listeners := (\<lambda>e. [])(Ev_error := [Handler 3])\<rparr>"
  by (simp add: destroyed_heard_def run_defs)

lemma write_destroyed:
  assumes "destroyed s" "\<not> aborted s" "\<not> eof s"
  shows "fst (write_mp E chunk enc cb s) =
           (if listeners s Ev_error = [] \<and> signal s = None
            then Threw (Unhandled ERR_STREAM_DESTROYED) else Ret True)"
    and "emittedError (snd (write_mp E chunk enc cb s)) = ERR_STREAM_DESTROYED"
    and "trace (snd (write_mp E chunk enc cb s)) =
           trace s @ calls Sym_ERROR ERR_STREAM_DESTROYED s @ calls Ev_error ERR_STREAM_DESTROYED s"
    and "buffer (snd (write_mp E chunk enc cb s)) = buffer s"
    and "bufferLength (snd (write_mp E chunk enc cb s)) = bufferLength s"
proof -
  let ?e = "emit E Ev_error ERR_STREAM_DESTROYED s"
  have w: "write_mp E chunk enc cb s =
      (case ?e of (Threw e, s1) \<Rightarrow> (Threw e, s1) | (Ret r, s1) \<Rightarrow> (Ret True, s1))"
    using assms by (simp add: write_mp_def)
  have sw: "snd (write_mp E chunk enc cb s) = snd ?e"
    unfolding w by (cases ?e) (auto split: outcome.splits)
  have fw: "fst (write_mp E chunk enc cb s) =
      (case fst ?e of Threw e \<Rightarrow> Threw e | Ret r \<Rightarrow> Ret True)"
    unfolding w by (cases ?e) (auto split: outcome.splits)
  show "fst (write_mp E chunk enc cb s) =
           (if listeners s Ev_error = [] \<and> signal s = None
            then Threw (Unhandled ERR_STREAM_DESTROYED) else Ret True)"
    by (simp add: fw emit_error_general(3))
  show "emittedError (snd (write_mp E chunk enc cb s)) = ERR_STREAM_DESTROYED"
    by (simp add: sw emit_error_general(1))
  obtain rest where r: "trace (snd ?e) =
       trace s @ calls Sym_ERROR ERR_STREAM_DESTROYED s @
       (if signal s \<noteq> None \<and> listeners s Ev_error = [] then []
        else calls Ev_error ERR_STREAM_DESTROYED s) @ rest"
     "destroyed s \<longrightarrow> rest = []"
    using emit_error_general(2) [of E ERR_STREAM_DESTROYED s] by blast
  show "trace (snd (write_mp E chunk enc cb s)) =
           trace s @ calls Sym_ERROR ERR_STREAM_DESTROYED s @ calls Ev_error ERR_STREAM_DESTROYED s"
    using r assms(1) by (simp add: sw calls_def)
  show "buffer (snd (write_mp E chunk enc cb s)) = buffer s"
    using frame_emit [of s E Ev_error ERR_STREAM_DESTROYED] by (simp add: sw frame_def)
  show "bufferLength (snd (write_mp E chunk enc cb s)) = bufferLength s"
    using frame_emit [of s E Ev_error ERR_STREAM_DESTROYED] by (simp add: sw frame_def)
qed

text \<open>
  Claim C4, as the code has it.  On a stream that is destroyed, not aborted and not ended,
  \<^verbatim>\<open>write\<close> latches the error with the code \<^verbatim>\<open>ERR_STREAM_DESTROYED\<close>, calls with it the
  listeners of the internal error channel and then those of \<^verbatim>\<open>error\<close>, leaves the buffer and
  its length alone and hands no data to any consumer.  It returns true if \<^verbatim>\<open>error\<close> has a
  listener or the stream has a signal; with neither, the host's emitter throws the error.
\<close>

theorem write_after_destroy:
  assumes "destroyed s" and "\<not> aborted s" and "\<not> eof s"
  shows "fst (write_mp E chunk enc cb s) =
           (if listeners s Ev_error = [] \<and> signal s = None
            then Threw (Unhandled ERR_STREAM_DESTROYED) else Ret True) \<and>
         emittedError (snd (write_mp E chunk enc cb s)) = ERR_STREAM_DESTROYED \<and>
         trace (snd (write_mp E chunk enc cb s)) =
           trace s @ calls Sym_ERROR ERR_STREAM_DESTROYED s @
           calls Ev_error ERR_STREAM_DESTROYED s \<and>
         buffer (snd (write_mp E chunk enc cb s)) = buffer s \<and>
         bufferLength (snd (write_mp E chunk enc cb s)) = bufferLength s \<and>
         data_out (trace (snd (write_mp E chunk enc cb s))) = data_out (trace s)"
  using write_destroyed [OF assms, of E chunk enc cb] by simp

theorem write_after_destroy_witness:
  "destroyed destroyed_heard \<and> \<not> aborted destroyed_heard \<and> \<not> eof destroyed_heard \<and>
   fst (write_mp env0 (Buf [1]) None None destroyed_heard) = Ret True \<and>
   trace (snd (write_mp env0 (Buf [1]) None None destroyed_heard)) =
     [Call Ev_error 3 ERR_STREAM_DESTROYED] \<and>
   buffer (snd (write_mp env0 (Buf [1]) None None destroyed_heard)) = []"
  using write_after_destroy [of destroyed_heard env0 "Buf [1]" None None]
  by (simp add: destroyed_heard_eq fresh_def calls_def)

text \<open>
  The claim as it is written fails on a destroyed stream that has no listener for
  \<^verbatim>\<open>error\<close> and no signal: the write does not return.
\<close>

theorem write_after_destroy_unheard_counterexample:
  "destroyed destroyed_bare \<and> \<not> aborted destroyed_bare \<and> \<not> eof destroyed_bare \<and>
   fst (write_mp env0 (Buf [1]) None None destroyed_bare) =
     Threw (Unhandled ERR_STREAM_DESTROYED)"
  by (simp add: destroyed_bare_eq) (simp add: run_defs)

section \<open>The read side and the buffer length\<close>

text \<open>A fresh stream of Buffers into which three bytes were written, with no consumer.\<close>

definition three_bytes :: minipass where
  "three_bytes = snd (write_mp env0 (Buf [1, 2, 3]) None None fresh)"

lemma three_bytes_eq:
  "three_bytes = fresh\<lparr>buffer := [Buf [1, 2, 3]], bufferLength := 3\<rparr>"
  by (simp add: three_bytes_def run_defs)

lemma buffer_MAYBE_EMIT_END [simp]: "buffer (MAYBE_EMIT_END E s) = buffer s"
  using frame_MAYBE_EMIT_END [of s E] by (simp add: frame_def)

lemma bufferLength_MAYBE_EMIT_END [simp]: "bufferLength (MAYBE_EMIT_END E s) = bufferLength s"
  using frame_MAYBE_EMIT_END [of s E] by (simp add: frame_def)

text \<open>
  \<^verbatim>\<open>read(n)\<close> returns null at once on a destroyed stream, and on any other stream when
  \<open>bufferLength\<close> is 0, when \<open>n\<close> is 0 and when \<open>n\<close> exceeds \<open>bufferLength\<close>; the buffer and
  \<open>bufferLength\<close> stay as they are.
\<close>

lemma read_null_guard:
  "(destroyed s \<longrightarrow> read E n s = (Ret Null, s)) \<and>
   (\<not> destroyed s \<and>
    (bufferLength s = 0 \<or> n = Some 0 \<or> (\<exists>k. n = Some k \<and> bufferLength s < k)) \<longrightarrow>
      fst (read E n s) = Ret Null \<and>
      buffer (snd (read E n s)) = buffer s \<and>
      bufferLength (snd (read E n s)) = bufferLength s)"
proof (intro conjI impI)
  assume "destroyed s"
  then show "read E n s = (Ret Null, s)" by (simp add: read_def)
next
  assume a: "\<not> destroyed s \<and>
    (bufferLength s = 0 \<or> n = Some 0 \<or> (\<exists>k. n = Some k \<and> bufferLength s < k))"
  have c: "bufferLength s = 0 \<or> n = Some 0 \<or>
      (case n of None \<Rightarrow> False | Some k \<Rightarrow> k \<noteq> 0 \<and> k > bufferLength s)"
    using a by (cases n) auto
  have "read E n s = (Ret Null, MAYBE_EMIT_END E (s\<lparr>discarded := False\<rparr>))"
    using a c by (cases n) (auto simp: read_def Let_def)
  then show "fst (read E n s) = Ret Null"
    and "buffer (snd (read E n s)) = buffer s"
    and "bufferLength (snd (read E n s)) = bufferLength s"
    by simp_all
qed

text \<open>
  The guard of \<^verbatim>\<open>read\<close> tests \<open>bufferLength\<close>, not the buffer.  While \<open>bufferLength\<close> is in step
  with the buffer, an empty buffer is a \<open>bufferLength\<close> of 0 and \<^verbatim>\<open>read\<close> returns null.
\<close>

lemma read_null_empty_buffer:
  assumes "\<not> destroyed s" "buffer s = []" "bufferLength_ok s"
  shows "fst (read E n s) = Ret Null"
    and "buffer (snd (read E n s)) = []"
    and "bufferLength (snd (read E n s)) = 0"
proof -
  have bl0: "bufferLength s = 0" using assms(2,3) by (simp add: bufferLength_ok_def)
  show "fst (read E n s) = Ret Null"
    and "buffer (snd (read E n s)) = []"
    and "bufferLength (snd (read E n s)) = 0"
    using read_null_guard [of s E n] assms(1,2) bl0 by simp_all
qed

text \<open>
  The stream of three bytes after \<^verbatim>\<open>read(-1)\<close> and \<^verbatim>\<open>read(1)\<close>: the first leaves one byte and
  a \<open>bufferLength\<close> of 4, the second takes that byte.
\<close>

definition out_of_step :: minipass where
  "out_of_step = snd (read env0 (Some 1) (snd (read env0 (Some (- 1)) three_bytes)))"

text \<open>
  Claim C5 fails on the code, through the defect of claim C2.  After \<^verbatim>\<open>read(-1)\<close> and
  \<^verbatim>\<open>read(1)\<close> the stream is not destroyed and its buffer is empty, but \<open>bufferLength\<close> is 3:
  \<^verbatim>\<open>read()\<close> passes the guard and \<^verbatim>\<open>[READ]\<close> asks the head of an empty buffer for its
  length, a TypeError, where the claim has null.
\<close>

theorem read_empty_buffer_throws:
  "\<not> destroyed out_of_step \<and> buffer out_of_step = [] \<and> bufferLength out_of_step = 3 \<and>
   fst (read env0 None out_of_step) = Threw TypeError \<and>
   fst (read env0 (Some 2) out_of_step) = Threw TypeError"
  by (simp add: out_of_step_def three_bytes_eq) (simp add: run_defs)

text \<open>
  Claim C2 fails on the code: \<^verbatim>\<open>read(-1)\<close> passes the guards of \<^verbatim>\<open>read\<close>, \<^verbatim>\<open>[READ]\<close> keeps the
  last byte in the buffer, returns the two before it and subtracts \<open>-1\<close> from
  \<open>bufferLength\<close>: one byte is buffered and \<open>bufferLength\<close> is 4.  For sequences of
  operations whose \<^verbatim>\<open>read\<close> arguments are not negative the invariant holds (lemma
  \<open>bufferLength_ok_operations\<close>).
\<close>

theorem read_negative_breaks_bufferLength:
  "bufferLength_ok three_bytes \<and>
   fst (read env0 (Some (- 1)) three_bytes) = Ret (Buf [1, 2]) \<and>
   buffer (snd (read env0 (Some (- 1)) three_bytes)) = [Buf [3]] \<and>
   bufferLength (snd (read env0 (Some (- 1)) three_bytes)) = 4 \<and>
   \<not> bufferLength_ok (snd (read env0 (Some (- 1)) three_bytes))"
  by (simp add: three_bytes_eq bufferLength_ok_def) (simp add: run_defs bufferLength_ok_def)

section \<open>Errors\<close>

text \<open>A stream with a listener for \<^verbatim>\<open>error\<close> on which \<^verbatim>\<open>emit('error', undefined)\<close> was called.\<close>

definition erred_falsy :: minipass where
  "erred_falsy = snd (emit env0 Ev_error Undefined (snd (on env0 Ev_error (Handler 0) fresh)))"

lemma erred_falsy_eq:
  "erred_falsy = fresh\<lparr>emittedError := Undefined,
      listeners := (\<lambda>e. [])(Ev_error := [Handler 0]), trace := [Call Ev_error 0 Undefined]\<rparr>"
  by (simp add: erred_falsy_def run_defs)

lemma on_error_late:
  "truthy (emittedError t) \<Longrightarrow> \<not> async t \<Longrightarrow>
     trace (snd (on E Ev_error (Handler h) t)) = trace t @ [Call Ev_error h (emittedError t)]"
  "truthy (emittedError t) \<Longrightarrow> async t \<Longrightarrow>
     trace (snd (on E Ev_error (Handler h) t)) = trace t \<and>
     deferred (snd (on E Ev_error (Handler h) t)) = deferred t @ [T_errorHandler (Handler h)]"
  "\<not> truthy (emittedError t) \<Longrightarrow> trace (snd (on E Ev_error (Handler h) t)) = trace t"
  by (simp_all add: on_def Let_def super_on_def isEndish_def defer_task_def record_obs_def)

lemma tick_errorHandler:
  "deferred u = T_errorHandler (Handler h) # ts \<Longrightarrow>
   trace (snd (tick E u)) = trace u @ [Call Ev_error h (emittedError u)]"
  by (simp add: tick_def Let_def record_obs_def)

text \<open>
  Claim C6, as the code has it.  \<^verbatim>\<open>emit('error', e)\<close> latches \<open>e\<close>, calls the listeners of the
  internal error channel, and then the listeners of \<^verbatim>\<open>error\<close> unless the stream has a signal and
  \<^verbatim>\<open>error\<close> has no listener; nothing else it records is a call for one of these two events.
  It returns false when it suppresses, and the host's emitter throws \<open>e\<close> when there is
  neither a listener nor a signal.  If \<open>e\<close> is truthy, a handler registered for \<^verbatim>\<open>error\<close>
  afterwards is called once with \<open>e\<close>: at once on a sync stream, by a deferred call on an
  async one.  If \<open>e\<close> is falsy, the handler is not called.
\<close>

theorem emit_error_latch:
  "emittedError (snd (emit E Ev_error e s)) = e \<and>
   fst (emit E Ev_error e s) =
     (if listeners s Ev_error \<noteq> [] then Ret True
      else if signal s = None then Threw (Unhandled e) else Ret False) \<and>
   (\<exists>rest. trace (snd (emit E Ev_error e s)) =
       trace s @ calls Sym_ERROR e s @
       (if signal s \<noteq> None \<and> listeners s Ev_error = [] then [] else calls Ev_error e s) @ rest \<and>
     calls_of {Ev_error, Sym_ERROR} rest = []) \<and>
   (truthy e \<and> \<not> async s \<longrightarrow>
      trace (snd (on E Ev_error (Handler h) (snd (emit E Ev_error e s)))) =
        trace (snd (emit E Ev_error e s)) @ [Call Ev_error h e]) \<and>
   (truthy e \<and> async s \<longrightarrow>
      trace (snd (on E Ev_error (Handler h) (snd (emit E Ev_error e s)))) =
        trace (snd (emit E Ev_error e s)) \<and>
      deferred (snd (on E Ev_error (Handler h) (snd (emit E Ev_error e s)))) =
        deferred (snd (emit E Ev_error e s)) @ [T_errorHandler (Handler h)]) \<and>
   (deferred u = T_errorHandler (Handler h) # ts \<longrightarrow>
      trace (snd (tick E u)) = trace u @ [Call Ev_error h (emittedError u)]) \<and>
   (\<not> truthy e \<longrightarrow>
      trace (snd (on E Ev_error (Handler h) (snd (emit E Ev_error e s)))) =
        trace (snd (emit E Ev_error e s)))"
proof -
  let ?t = "snd (emit E Ev_error e s)"
  have le: "emittedError ?t = e" by (rule emit_error_general(1))
  have as: "async ?t = async s" using frame_emit [of s E Ev_error e] by (simp add: frame_def)
  have tr: "\<exists>rest. trace ?t =
       trace s @ calls Sym_ERROR e s @
       (if signal s \<noteq> None \<and> listeners s Ev_error = [] then [] else calls Ev_error e s) @ rest \<and>
     calls_of {Ev_error, Sym_ERROR} rest = []"
    using emit_error_general(2) [of E e s] by blast
  show ?thesis
    using le tr on_error_late [of ?t E h] tick_errorHandler [of u h ts E]
    by (simp add: as emit_error_general(3))
qed

text \<open>A stream with a listener for \<^verbatim>\<open>error\<close>, and one owing a call to a late handler.\<close>

definition heard :: minipass where
  "heard = snd (on env0 Ev_error (Handler 0) fresh)"

definition owing :: minipass where
  "owing = fresh\<lparr>async := True, emittedError := Err ''EIO'',
             deferred := [T_errorHandler (Handler 1)]\<rparr>"

lemma heard_eq: "heard = fresh\<lparr>listeners := (\<lambda>e. [])(Ev_error := [Handler 0])\<rparr>"
  by (simp add: heard_def run_defs)

theorem emit_error_latch_witness:
  "truthy (Err ''EIO'') \<and> \<not> async heard \<and>
   deferred owing = T_errorHandler (Handler 1) # [] \<and>
   emittedError (snd (emit env0 Ev_error (Err ''EIO'') heard)) = Err ''EIO'' \<and>
   fst (emit env0 Ev_error (Err ''EIO'') heard) = Ret True \<and>
   trace (snd (on env0 Ev_error (Handler 1) (snd (emit env0 Ev_error (Err ''EIO'') heard)))) =
     trace (snd (emit env0 Ev_error (Err ''EIO'') heard)) @ [Call Ev_error 1 (Err ''EIO'')] \<and>
   trace (snd (tick env0 owing)) = [Call Ev_error 1 (Err ''EIO'')]"
  using emit_error_latch [of env0 "Err ''EIO''" heard 1 owing "[]"]
  by (simp add: heard_eq owing_def fresh_def)

text \<open>
  The claim as it is written fails for a falsy payload: after \<^verbatim>\<open>emit('error', undefined)\<close>
  a handler registered for \<^verbatim>\<open>error\<close> is not called.
\<close>

theorem late_error_handler_falsy_counterexample:
  "emittedError erred_falsy = Undefined \<and> trace erred_falsy = [Call Ev_error 0 Undefined] \<and>
   trace (snd (on env0 Ev_error (Handler 1) erred_falsy)) = [Call Ev_error 0 Undefined]"
  by (simp add: erred_falsy_eq) (simp add: run_defs)


section \<open>Piping\<close>

text \<open>
  Claim C7.  For a call \<^verbatim>\<open>pipe(dest, opts)\<close> on a stream that is not destroyed, the effective
  end option \<open>e\<close> is false for the process's stdout and stderr and otherwise true unless
  \<^verbatim>\<open>opts.end === false\<close>.  If \<^verbatim>\<open>end\<close> was emitted already, no pipe record is added and
  \<^verbatim>\<open>dest.end()\<close> is called at once exactly if \<open>e\<close> holds; otherwise a pipe record carrying
  \<open>e\<close> is appended.
\<close>

theorem pipe_end_option:
  assumes "\<not> destroyed s"
    and "e = (if Some d = proc_stdout E \<or> Some d = proc_stderr E then False
              else opt_end opts \<noteq> Some False)"
  shows "(emittedEnd s \<longrightarrow>
            fst (pipe E d opts s) = Ret () \<and>
            pipes (snd (pipe E d opts s)) = pipes s \<and>
            trace (snd (pipe E d opts s)) = trace s @ (if e then [DestEnd d] else [])) \<and>
         (\<not> emittedEnd s \<longrightarrow>
            pipes (snd (pipe E d opts s)) =
              pipes s @ [\<lparr>dest = d, opts_end = e,
                          opts_proxyErrors = (opt_proxyErrors opts = Some True)\<rparr>])"
proof (intro conjI impI)
  assume "emittedEnd s"
  then show "fst (pipe E d opts s) = Ret ()"
    and "pipes (snd (pipe E d opts s)) = pipes s"
    and "trace (snd (pipe E d opts s)) = trace s @ (if e then [DestEnd d] else [])"
    using assms by (simp_all add: pipe_def Let_def record_obs_def)
next
  assume ne: "\<not> emittedEnd s"
  let ?pe = "opt_proxyErrors opts = Some True"
  let ?s1 = "s\<lparr>discarded := False\<rparr>"
  define r where "r = (if ?pe then on E Ev_error (ProxyErrors d) ?s1 else (Ret (), ?s1))"
  have p2: "pipes (snd r) = pipes s"
    using stable_on [of ?s1 E Ev_error "ProxyErrors d"] by (simp add: r_def stable_def)
  have a2: "async (snd r) = async s"
    using stable_on [of ?s1 E Ev_error "ProxyErrors d"] by (simp add: r_def stable_def)
  let ?p = "\<lparr>dest = d, opts_end = e, opts_proxyErrors = ?pe\<rparr>"
  let ?s3 = "(snd r)\<lparr>pipes := pipes (snd r) @ [?p]\<rparr>"
  have eq: "pipe E d opts s =
      (case r of (Threw x, s2) \<Rightarrow> (Threw x, s2)
       | (Ret u, s2) \<Rightarrow>
          (let s3 = s2\<lparr>pipes := pipes s2 @ [?p]\<rparr>
           in if async s3 then (Ret (), defer_task T_RESUME s3) else RESUME E s3))"
    using assms(1) ne unfolding pipe_def Let_def r_def assms(2) by simp
  have nothrow: "fst r = Ret ()" by (simp add: r_def on_def Let_def)
  then have "pipe E d opts s =
     (if async ?s3 then (Ret (), defer_task T_RESUME ?s3) else RESUME E ?s3)"
    by (cases r) (simp add: eq Let_def)
  moreover have "pipes (snd (RESUME E ?s3)) = pipes ?s3"
    using stable_RESUME [of ?s3 E] by (simp add: stable_def)
  ultimately show "pipes (snd (pipe E d opts s)) = pipes s @ [?p]"
    using p2 by (simp add: defer_task_def)
qed

theorem pipe_end_option_witness:
  "\<not> destroyed (fresh\<lparr>emittedEnd := True\<rparr>) \<and>
   trace (snd (pipe env0 3 \<lparr>opt_end = None, opt_proxyErrors = None\<rparr> (fresh\<lparr>emittedEnd := True\<rparr>)))
     = [DestEnd 3] \<and>
   trace (snd (pipe env0 1 \<lparr>opt_end = Some True, opt_proxyErrors = None\<rparr> (fresh\<lparr>emittedEnd := True\<rparr>)))
     = [] \<and>
   pipes (snd (pipe env0 3 \<lparr>opt_end = Some False, opt_proxyErrors = None\<rparr> fresh))
     = [\<lparr>dest = 3, opts_end = False, opts_proxyErrors = False\<rparr>] \<and>
   pipes (snd (pipe env0 2 \<lparr>opt_end = None, opt_proxyErrors = Some True\<rparr> fresh))
     = [\<lparr>dest = 2, opts_end = False, opts_proxyErrors = True\<rparr>]"
  using pipe_end_option [of "fresh\<lparr>emittedEnd := True\<rparr>" True 3 env0 "\<lparr>opt_end = None, opt_proxyErrors = None\<rparr>"]
    pipe_end_option [of "fresh\<lparr>emittedEnd := True\<rparr>" False 1 env0 "\<lparr>opt_end = Some True, opt_proxyErrors = None\<rparr>"]
    pipe_end_option [of fresh False 3 env0 "\<lparr>opt_end = Some False, opt_proxyErrors = None\<rparr>"]
    pipe_end_option [of fresh False 2 env0 "\<lparr>opt_end = None, opt_proxyErrors = Some True\<rparr>"]
  by (simp add: fresh_def env0_def)

section \<open>After destruction\<close>

text \<open>A stream that ended and was destroyed afterwards.\<close>

definition ended_destroyed :: minipass where
  "ended_destroyed = snd (destroy env0 Undefined (snd (end_stream env0 Undefined None None fresh)))"

lemma ended_destroyed_eq:
  "ended_destroyed = fresh\<lparr>eof := True, writable := False, emittedEnd := True, readable := False,
       destroyed := True, discarded := True\<rparr>"
proof -
  have "(\<lambda>e::event. []::listener list)(Ev_end := [], Ev_prefinish := [], Ev_finish := []) = (\<lambda>e. [])"
    by (simp add: fun_eq_iff)
  then show ?thesis by (simp add: ended_destroyed_def run_defs)
qed

lemma write_on_destroyed:
  assumes "destroyed s"
  shows "buffer (snd (write_mp E chunk enc cb s)) = buffer s"
    and "bufferLength (snd (write_mp E chunk enc cb s)) = bufferLength s"
    and "data_out (trace (snd (write_mp E chunk enc cb s))) = data_out (trace s)"
proof -
  consider (ab) "aborted s" | (eo) "\<not> aborted s" "eof s" | (de) "\<not> aborted s" "\<not> eof s"
    by blast
  then have "buffer (snd (write_mp E chunk enc cb s)) = buffer s \<and>
    bufferLength (snd (write_mp E chunk enc cb s)) = bufferLength s \<and>
    data_out (trace (snd (write_mp E chunk enc cb s))) = data_out (trace s)"
  proof cases
    case ab
    then show ?thesis by (simp add: write_mp_def)
  next
    case eo
    then show ?thesis by (simp add: write_mp_def)
  next
    case de
    then show ?thesis using write_destroyed [OF assms de, of E chunk enc cb] by simp
  qed
  then show "buffer (snd (write_mp E chunk enc cb s)) = buffer s"
    and "bufferLength (snd (write_mp E chunk enc cb s)) = bufferLength s"
    and "data_out (trace (snd (write_mp E chunk enc cb s))) = data_out (trace s)"
    by simp_all
qed

text \<open>
  Claim C8, as the code has it.  On a destroyed stream \<^verbatim>\<open>emit\<close> of any event other than
  \<^verbatim>\<open>error\<close>, \<^verbatim>\<open>close\<close> and the destroy marker returns false and changes nothing, so it calls
  no handler; and a write neither changes the buffer or its length nor hands data to a
  handler or a destination.
\<close>

theorem destroyed_emit_and_write:
  assumes "destroyed s"
  shows "(ev \<noteq> Ev_error \<and> ev \<noteq> Ev_close \<and> ev \<noteq> Sym_DESTROYED \<longrightarrow>
            emit E ev a s = (Ret False, s)) \<and>
         buffer (snd (write_mp E chunk enc cb s)) = buffer s \<and>
         bufferLength (snd (write_mp E chunk enc cb s)) = bufferLength s \<and>
         data_out (trace (snd (write_mp E chunk enc cb s))) = data_out (trace s)"
  using assms write_on_destroyed [OF assms, of E chunk enc cb] by (simp add: emit_guard)

theorem destroyed_emit_and_write_witness:
  "destroyed destroyed_heard \<and>
   emit env0 Ev_data (Buf [1]) destroyed_heard = (Ret False, destroyed_heard) \<and>
   emit env0 Ev_end Undefined destroyed_heard = (Ret False, destroyed_heard) \<and>
   buffer (snd (write_mp env0 (Buf [1]) None None destroyed_heard)) = [] \<and>
   data_out (trace (snd (write_mp env0 (Buf [1]) None None destroyed_heard))) = []"
  using destroyed_emit_and_write [of destroyed_heard Ev_data env0 "Buf [1]" "Buf [1]" None None]
    destroyed_emit_and_write [of destroyed_heard Ev_end env0 Undefined "Buf [1]" None None]
  by (simp add: destroyed_heard_eq fresh_def data_out_def)

text \<open>
  The claim as it is written, that no other event is ever delivered again, fails: a
  listener registered for \<^verbatim>\<open>end\<close> on a stream that ended before it was destroyed is called
  with \<^verbatim>\<open>end\<close>, because \<^verbatim>\<open>on\<close> replays a past endish event through \<^verbatim>\<open>super.emit\<close>.
\<close>

theorem end_delivered_after_destroy_counterexample:
  "destroyed ended_destroyed \<and> trace ended_destroyed = [] \<and>
   trace (snd (on env0 Ev_end (Handler 5) ended_destroyed)) = [Call Ev_end 5 Undefined]"
  by (simp add: ended_destroyed_eq) (simp add: run_defs)

section \<open>Listening for readable\<close>

text \<open>A stream with one listener for \<^verbatim>\<open>readable\<close> and three buffered bytes.\<close>

definition buffered :: minipass where
  "buffered = snd (write_mp env0 (Buf [1, 2, 3]) None None
                 (snd (on env0 Ev_readable (Handler 1) fresh)))"

lemma buffered_eq:
  "buffered = fresh\<lparr>buffer := [Buf [1, 2, 3]], bufferLength := 3,
       listeners := (\<lambda>e. [])(Ev_readable := [Handler 1]),
       trace := [Call Ev_readable 1 Undefined]\<rparr>"
  by (simp add: buffered_def run_defs)

text \<open>
  Claim C9, as the code has it.  Registering a handler for \<^verbatim>\<open>readable\<close> while
  \<open>bufferLength\<close> is not zero emits \<^verbatim>\<open>readable\<close> once, at once: every listener of
  \<^verbatim>\<open>readable\<close> registered before is called once, then the registering handler.
\<close>

theorem on_readable_emits:
  assumes "bufferLength s \<noteq> 0"
  shows "fst (on E Ev_readable (Handler h) s) = Ret () \<and>
         trace (snd (on E Ev_readable (Handler h) s)) =
           trace s @ calls Ev_readable Undefined s @ [Call Ev_readable h Undefined]"
  using assms by (simp add: on_def Let_def super_on_def calls_def)

theorem on_readable_emits_witness:
  "bufferLength buffered \<noteq> 0 \<and>
   trace (snd (on env0 Ev_readable (Handler 2) buffered)) =
     trace buffered @ [Call Ev_readable 1 Undefined, Call Ev_readable 2 Undefined]"
  using on_readable_emits [of buffered env0 2] by (simp add: buffered_eq calls_def)

text \<open>
  The claim as it is written, that no other handler is called, fails when another handler
  listens already: handler 1 is called again when handler 2 registers.
\<close>

theorem on_readable_other_handler_counterexample:
  "bufferLength buffered \<noteq> 0 \<and> trace buffered = [Call Ev_readable 1 Undefined] \<and>
   trace (snd (on env0 Ev_readable (Handler 2) buffered)) =
     [Call Ev_readable 1 Undefined, Call Ev_readable 1 Undefined, Call Ev_readable 2 Undefined]"
  by (simp add: buffered_eq) (simp add: run_defs)

section \<open>The async flag\<close>

lemma async_emit_destroyed: "async (snd (emit_destroyed E er s)) = async s"
proof -
  have "frame s (snd (emit E Ev_error er s))" "frame s (emit_drop E Sym_DESTROYED Undefined s)"
    by simp_all
  then show ?thesis
    by (auto simp: emit_destroyed_def frame_def split: prod.splits outcome.splits)
qed

lemma async_destroy: "async (snd (destroy E er s)) = async s"
  by (simp add: destroy_def Let_def async_emit_destroyed record_obs_def)

lemma async_ABORT: "async (snd (ABORT E s)) = async s"
proof -
  have "frame (s\<lparr>aborted := True\<rparr>) (emit_drop E Ev_abort a (s\<lparr>aborted := True\<rparr>))" for a
    by simp
  then show ?thesis
    by (simp add: ABORT_def Let_def async_destroy frame_def)
qed

lemma async_new_Minipass:
  assumes "new_Minipass E opts = Ret s"
  shows "async s = truthy (options_async opts)"
proof -
  define enc where "enc = (if options_objectMode opts then None
                    else (case options_encoding opts of
                            None \<Rightarrow> None
                          | Some e \<Rightarrow> if e \<noteq> [] \<and> e \<noteq> ''buffer'' then Some e else None))"
  define s1 where "s1 = fresh\<lparr>objectMode := options_objectMode opts, encoding := enc,
                        async := truthy (options_async opts),
                        decoder := (case enc of None \<Rightarrow> None | Some e \<Rightarrow> Some (e, []))\<rparr>"
  have a1: "async s1 = truthy (options_async opts)" by (simp add: s1_def)
  have eq: "new_Minipass E opts =
     (if options_objectMode opts \<and> options_encoding opts \<noteq> None then Threw EncodingAndObjectMode
      else case options_signal opts of
              None \<Rightarrow> Ret s1
            | Some (ab, reason) \<Rightarrow>
                (let s2 = s1\<lparr>signal := Some reason\<rparr>
                 in if ab then
                      (case ABORT E s2 of (Threw e, s3) \<Rightarrow> Threw e | (Ret u, s3) \<Rightarrow> Ret s3)
                    else Ret s2))"
    unfolding new_Minipass_def s1_def enc_def Let_def by (rule refl)
  show ?thesis
  proof (cases "options_signal opts")
    case None
    then have "s = s1" using assms by (simp add: eq split: if_splits)
    then show ?thesis using a1 by simp
  next
    case (Some p)
    obtain ab reason where p: "p = (ab, reason)" by (cases p)
    let ?s2 = "s1\<lparr>signal := Some reason\<rparr>"
    have a2: "async ?s2 = truthy (options_async opts)" using a1 by simp
    show ?thesis
    proof (cases ab)
      case False
      then have "s = ?s2" using assms Some p by (simp add: eq split: if_splits)
      then show ?thesis using a1 by simp
    next
      case True
      then have "ABORT E ?s2 = (Ret (), s)"
        using assms Some p by (simp add: eq split: if_splits prod.splits outcome.splits)
      then have "s = snd (ABORT E ?s2)" by simp
      then show ?thesis using async_ABORT [of E ?s2] a2 by simp
    qed
  qed
qed

lemma async_assignments:
  "async (foldl (\<lambda>t a. set_async a t) s as) = (async s \<or> (\<exists>a\<in>set as. truthy a))"
  by (induction as arbitrary: s) (auto simp: set_async_def)

text \<open>
  Claim C10.  The async flag is monotone under assignment: after any sequence of
  assignments to the setter the flag is true exactly if it was true before or some assigned
  value was truthy; the constructor sets it to the truthiness of its option; and assigning
  any value, false included, to a stream whose flag is true leaves it true.
\<close>

theorem async_setter_monotone:
  "async (foldl (\<lambda>t a. set_async a t) s as) = (async s \<or> (\<exists>a\<in>set as. truthy a)) \<and>
   (new_Minipass E opts = Ret s \<longrightarrow> async s = truthy (options_async opts)) \<and>
   (async s \<longrightarrow> async (set_async a s))"
proof -
  have "async s \<longrightarrow> async (set_async a s)" by (simp add: set_async_def)
  then show ?thesis using async_assignments [of s as] async_new_Minipass [of E opts s] by blast
qed

lemma new_Minipass_opts0: "new_Minipass env0 opts0 = Ret (fresh\<lparr>async := True\<rparr>)"
  by (simp add: new_Minipass_def opts0_def fresh_def)

theorem async_setter_monotone_witness:
  "new_Minipass env0 opts0 = Ret (fresh\<lparr>async := True\<rparr>) \<and>
   async (foldl (\<lambda>t a. set_async a t) (fresh\<lparr>async := True\<rparr>) [Bool False, Undefined]) \<and>
   async (set_async (Bool False) (fresh\<lparr>async := True\<rparr>)) \<and>
   \<not> async (foldl (\<lambda>t a. set_async a t) fresh [Bool False, Undefined]) \<and>
   async (foldl (\<lambda>t a. set_async a t) fresh [Bool False, Bool True, Bool False])"
  using async_setter_monotone [of "fresh\<lparr>async := True\<rparr>" "[Bool False, Undefined]" env0 opts0 "Bool False"]
    async_setter_monotone [of fresh "[Bool False, Undefined]" env0 opts0 "Bool False"]
    async_setter_monotone [of fresh "[Bool False, Bool True, Bool False]" env0 opts0 "Bool False"] new_Minipass_opts0
  by (simp add: fresh_def)

end
